theory Spec2Isabelle
  imports Main "HOL-Library.Word" "HOL-Library.Monad_Syntax"
begin

unbundle bit_operations_syntax

section \<open>Machine types and the host file\<close>

text \<open>
  The program is C for a 64-bit little-endian target: \<open>size_t\<close> and \<open>off_t\<close> are 64 bits
  wide (the latter read as two's complement with \<open>sint\<close>), \<open>unsigned short\<close> is 16 bits,
  \<open>char\<close> is a signed byte. Unsigned arithmetic wraps around; it is the arithmetic of
  \<open>'a word\<close>.
\<close>

type_synonym byte = "8 word"
type_synonym block_index = "16 word"
type_synonym storage_region = "16 word"
type_synonym size_t = "64 word"
type_synonym off_t = "64 word"

definition INVALID_REGION :: storage_region where
  "INVALID_REGION = 65535"

definition INVALID_BLOCK :: block_index where
  "INVALID_BLOCK = INVALID_REGION"

definition BLOCK_NOT_IN_USE_INDICATOR :: byte where
  "BLOCK_NOT_IN_USE_INDICATOR = 0"

definition BLOCK_IN_USE_INDICATOR :: byte where
  "BLOCK_IN_USE_INDICATOR = 1"

definition BLOCK_HEADER_SIZE :: nat where
  "BLOCK_HEADER_SIZE = 5"

definition FIRST_BLOCK_POSITION :: nat where
  "FIRST_BLOCK_POSITION = 4"

definition DEFAULT_BLOCK_SIZE :: "16 word" where
  "DEFAULT_BLOCK_SIZE = 10"

definition DEFAULT_BLOCK_COUNT :: "16 word" where
  "DEFAULT_BLOCK_COUNT = 128"

text \<open>
  \<open>int\<close> is 32 bits wide. \<open>to_int x\<close> is the \<open>int\<close> that holds the low 32 bits of \<open>x\<close> in two's
  complement. It is the value of a conversion of \<open>x\<close> to \<open>int\<close> and of an \<open>int\<close> expression whose
  mathematical value is \<open>x\<close>: beyond the range of \<open>int\<close> the language does not fix the result
  of either, and the model takes the one the target computes.
\<close>

definition to_int :: "int \<Rightarrow> int" where
  "to_int x =
     (if x mod 4294967296 < 2147483648 then x mod 4294967296
      else x mod 4294967296 - 4294967296)"

text \<open>Little-endian object representations, as \<open>read\<close> and \<open>write\<close> on \<open>&variable\<close> see them.\<close>

definition le16 :: "16 word \<Rightarrow> byte list" where
  "le16 w = [word_of_nat (unat w mod 256), word_of_nat (unat w div 256)]"

definition le64 :: "64 word \<Rightarrow> byte list" where
  "le64 w = map (\<lambda>i. word_of_nat (unat w div 256 ^ i mod 256)) [0, 1, 2, 3, 4, 5, 6, 7]"

fun le_word :: "byte list \<Rightarrow> 'a::len word" where
  "le_word [] = 0"
| "le_word (b # bs) = ucast b + 256 * le_word bs"

text \<open>
  \<open>store16 old bs\<close> is the value of a 16-bit variable holding \<open>old\<close> after \<open>read\<close> delivered
  the bytes \<open>bs\<close> into it: a short read leaves the remaining bytes as they were.
\<close>

definition store16 :: "16 word \<Rightarrow> byte list \<Rightarrow> 16 word" where
  "store16 old bs = le_word (take 2 (bs @ drop (length bs) (le16 old)))"

text \<open>
  A destination buffer that is not initialised by the program (a local variable, a fresh
  \<open>malloc\<close> block) is modelled as holding zero bytes before the read.
\<close>

definition load8 :: "byte list \<Rightarrow> byte" where
  "load8 bs = (case bs of [] \<Rightarrow> 0 | b # _ \<Rightarrow> b)"

definition load16 :: "byte list \<Rightarrow> 16 word" where
  "load16 bs = le_word (take 2 (bs @ [0, 0]))"

definition load64 :: "byte list \<Rightarrow> 64 word" where
  "load64 bs = le_word (take 8 (bs @ [0, 0, 0, 0, 0, 0, 0, 0]))"

text \<open>
  \<open>struct block_info\<close>. The field \<open>in_use\<close> is declared \<open>bool\<close>, but \<open>read_block_header\<close> has
  \<open>read\<close> store a byte of the file into it: the model keeps that byte. The only use of the
  field is the test \<open>!current_block_.in_use\<close> in \<open>allocate_block\<close>, which is \<open>not_set\<close>: for
  the bytes 0 and 1 it is the negation. For every other byte the language does not define
  the value of the \<open>bool\<close>; the build flips the low bit of the byte and compares the result
  with 0, so that every byte other than 1 counts as not in use.
\<close>

record block_info =
  in_use :: byte
  previous_block :: block_index
  next_block :: block_index

definition not_set :: "byte \<Rightarrow> bool" where
  "not_set b = (b XOR 1 \<noteq> 0)"

lemma not_set_iff: "not_set b \<longleftrightarrow> b \<noteq> 1"
proof -
  have "b XOR 1 = 0 \<longleftrightarrow> b = 1"
  proof
    assume "b XOR 1 = 0"
    then have "(b XOR 1) XOR 1 = 0 XOR 1" by simp
    then show "b = 1" by (simp add: xor.assoc)
  next
    assume "b = 1"
    then show "b XOR 1 = 0" by simp
  qed
  then show ?thesis by (simp add: not_set_def)
qed

text \<open>
  The globals of \<open>virtualStorage.c\<close> together with the host's file \<open>./virtualStorage\<close>:
  \<open>disk\<close> is its content and \<open>file_offset\<close> the position of the open descriptor
  \<open>storage_file_\<close>; \<open>storage_file\<close> says that \<open>storage_file_ != -1\<close>.
\<close>

record storage_state =
  disk_exists :: bool
  disk :: "byte list"
  storage_file :: bool
  file_offset :: nat
  active_block_size :: "16 word"
  active_block_count :: "16 word"
  current_block_index :: block_index
  current_block_position :: size_t
  current_region_position :: size_t
  current_block :: block_info

text \<open>
  The host calls. \<open>read\<close> delivers the bytes from the file offset on, fewer than asked for
  at the end of the file; \<open>write\<close> overwrites from the file offset on and extends the file
  (a gap is filled with zero bytes); \<open>lseek\<close> to a negative position fails and leaves the
  offset alone. The module never checks a return value of these calls.
\<close>

definition host_read :: "nat \<Rightarrow> storage_state \<Rightarrow> byte list \<times> storage_state" where
  "host_read n s =
     (let d = take n (drop (file_offset s) (disk s))
      in (d, s\<lparr>file_offset := file_offset s + length d\<rparr>))"

definition host_write :: "byte list \<Rightarrow> storage_state \<Rightarrow> storage_state" where
  "host_write bs s =
     (if bs = [] then s
      else s\<lparr>disk := take (file_offset s) (disk s)
                       @ replicate (file_offset s - length (disk s)) 0
                       @ bs
                       @ drop (file_offset s + length bs) (disk s),
             file_offset := file_offset s + length bs\<rparr>)"

definition host_lseek_set :: "int \<Rightarrow> storage_state \<Rightarrow> storage_state" where
  "host_lseek_set n s = (if n < 0 then s else s\<lparr>file_offset := nat n\<rparr>)"

definition host_lseek_cur :: "int \<Rightarrow> storage_state \<Rightarrow> storage_state" where
  "host_lseek_cur d s =
     (if int (file_offset s) + d < 0 then s
      else s\<lparr>file_offset := nat (int (file_offset s) + d)\<rparr>)"

section \<open>The storage engine (virtualStorage.c)\<close>

definition storage_initialized :: "storage_state \<Rightarrow> bool" where
  "storage_initialized s = storage_file s"

text \<open>\<open>read_block_header\<close>: three reads into the fields of \<open>current_block_\<close>.\<close>

definition read_block_header :: "storage_state \<Rightarrow> storage_state" where
  "read_block_header s =
     (let (b1, s1) = host_read 1 s;
          (b2, s2) = host_read 2 s1;
          (b3, s3) = host_read 2 s2;
          cb = current_block s
      in s3\<lparr>current_block :=
               \<lparr>in_use = (case b1 of [] \<Rightarrow> in_use cb | b # _ \<Rightarrow> b),
                previous_block = store16 (previous_block cb) b2,
                next_block = store16 (next_block cb) b3\<rparr>,
             current_block_position := 0\<rparr>)"

text \<open>
  \<open>jump_to_block\<close>. The operands of the file position are promoted to \<open>int\<close> and the
  position is computed in \<open>int\<close>: for a block that begins at 2 GiB or beyond it is not the
  position of the block (it is negative, and \<open>lseek\<close> fails, or it lies before the block).
\<close>

definition jump_to_block :: "block_index \<Rightarrow> storage_state \<Rightarrow> storage_state" where
  "jump_to_block block s =
     (if block \<ge> active_block_count s then s
      else (read_block_header
              (host_lseek_set
                 (to_int (int FIRST_BLOCK_POSITION
                    + (uint (active_block_size s) + int BLOCK_HEADER_SIZE) * uint block)) s))
           \<lparr>current_block_index := block\<rparr>)"

lemma host_read_count [simp]:
  "active_block_count (snd (host_read n s)) = active_block_count s"
  by (simp add: host_read_def Let_def)

lemma read_block_header_count [simp]:
  "active_block_count (read_block_header s) = active_block_count s"
  by (simp add: read_block_header_def Let_def split: prod.splits)
    (metis host_read_count snd_conv)

lemma jump_to_block_count [simp]:
  "active_block_count (jump_to_block b s) = active_block_count s"
  by (simp add: jump_to_block_def host_lseek_set_def)

text \<open>
  \<open>allocate_block\<close>: the scan over the block headers. The loop variable is the second
  argument; it runs from 0.
\<close>

function allocate_block_from :: "block_index \<Rightarrow> block_index \<Rightarrow> storage_state
    \<Rightarrow> block_index \<times> storage_state" where
  "allocate_block_from previous inspected_block_index s =
     (if inspected_block_index < active_block_count s then
        (let s1 = jump_to_block inspected_block_index s in
           if not_set (in_use (current_block s1)) then
             (inspected_block_index,
              host_write (le16 INVALID_BLOCK)
                (host_write (le16 previous)
                   (host_write [BLOCK_IN_USE_INDICATOR]
                      (host_lseek_cur (- int BLOCK_HEADER_SIZE) s1))))
           else allocate_block_from previous (inspected_block_index + 1) s1)
      else (INVALID_BLOCK, s))"
  by pat_completeness auto
termination
proof (relation "measure (\<lambda>(p, i, s). unat (active_block_count s) - unat i)")
  show "wf (measure (\<lambda>(p, i, s). unat (active_block_count s) - unat i))"
    by simp
next
  fix previous :: block_index and i :: block_index and s s1 :: storage_state
  assume lt: "i < active_block_count s" and s1: "s1 = jump_to_block i s"
  from lt have "unat i < unat (active_block_count s)"
    by (simp add: word_less_nat_alt)
  moreover have "unat (i + 1) = unat i + 1"
  proof -
    have "unat (active_block_count s) < 2 ^ LENGTH(16)"
      by (rule unsigned_less)
    with \<open>unat i < unat (active_block_count s)\<close>
    have "unat i + unat (1 :: 16 word) < 2 ^ LENGTH(16)"
      by simp
    then have "unat (i + 1) = unat i + unat (1 :: 16 word)"
      by (simp only: unat_add_lem)
    then show ?thesis by simp
  qed
  ultimately show "((previous, i + 1, s1), (previous, i, s)) \<in>
      measure (\<lambda>(p, i, s). unat (active_block_count s) - unat i)"
    using s1 by simp
qed

definition allocate_block :: "block_index \<Rightarrow> storage_state \<Rightarrow> block_index \<times> storage_state" where
  "allocate_block previous s = allocate_block_from previous 0 s"


text \<open>
  The loops of the engine that follow the \<open>next\<close> links of a region need not terminate on
  every backing file (a link may lead back into the region, or outside the file, where
  \<open>jump_to_block\<close> does nothing). They are defined with fuel: \<open>None\<close> is the call that does
  not return a value, either because the fuel did not suffice or because the source leaves
  the behaviour undefined there (a negative byte count, a read beyond a buffer).
\<close>

definition storage_allocate_region :: "storage_state \<Rightarrow> storage_region \<times> storage_state" where
  "storage_allocate_region s =
     (if \<not> storage_initialized s then (INVALID_REGION, s)
      else allocate_block INVALID_BLOCK s)"

fun free_blocks_from :: "nat \<Rightarrow> block_index \<Rightarrow> storage_state \<Rightarrow> storage_state option" where
  "free_blocks_from 0 next s = None"
| "free_blocks_from (Suc fuel) next s =
     (if next \<noteq> INVALID_BLOCK then
        (let s1 = jump_to_block next s;
             next' = next_block (current_block s1);
             s2 = host_write (le16 INVALID_BLOCK)
                    (host_write (le16 INVALID_BLOCK)
                       (host_write [BLOCK_NOT_IN_USE_INDICATOR]
                          (host_lseek_cur (- int BLOCK_HEADER_SIZE) s1)))
         in free_blocks_from fuel next' s2)
      else Some s)"

definition storage_free_region :: "nat \<Rightarrow> storage_region \<Rightarrow> storage_state
    \<Rightarrow> (int \<times> storage_state) option" where
  "storage_free_region fuel region s =
     (if \<not> storage_initialized s then Some (- 1, s)
      else map_option (\<lambda>s'. (0, s')) (free_blocks_from fuel region s))"

definition storage_jump_to_region :: "storage_region \<Rightarrow> storage_state \<Rightarrow> int \<times> storage_state" where
  "storage_jump_to_region region s =
     (if \<not> storage_initialized s then (- 1, s)
      else (0, (jump_to_block region s)\<lparr>current_region_position := 0\<rparr>))"

text \<open>
  \<open>storage_read_in_region\<close>. The result is the content of the buffer from its start up to
  the last byte delivered, the returned count, and the new state. \<open>int bytes_to_read\<close> holds
  the low 32 bits of \<open>active_block_size_ - current_block_position_\<close>, a difference of
  \<open>size_t\<close> values. Where it is negative, the count that \<open>read\<close> receives lies beyond
  \<open>SSIZE_MAX\<close> and beyond every buffer: the model gives \<open>None\<close>.
\<close>

fun read_loop :: "nat \<Rightarrow> size_t \<Rightarrow> size_t \<Rightarrow> byte list \<Rightarrow> storage_state
    \<Rightarrow> (byte list \<times> size_t \<times> storage_state) option" where
  "read_loop 0 n_bytes read_bytes buffer s = None"
| "read_loop (Suc fuel) n_bytes read_bytes buffer s =
     (if current_block_position s + n_bytes - read_bytes \<ge> ucast (active_block_size s) then
        (let bytes_to_read =
               to_int (uint (ucast (active_block_size s) - current_block_position s :: size_t))
         in if bytes_to_read < 0 then None
            else
              (let (data, s1) = host_read (nat bytes_to_read) s;
                   buffer' = buffer @ data @ replicate (nat bytes_to_read - length data) 0;
                   read_bytes' = read_bytes + word_of_int bytes_to_read
               in if next_block (current_block s1) = INVALID_BLOCK then
                    Some (buffer', read_bytes', s1)
                  else read_loop fuel n_bytes read_bytes' buffer'
                         (jump_to_block (next_block (current_block s1)) s1)))
      else
        (let (data, s1) = host_read (unat (n_bytes - read_bytes)) s
         in Some (buffer @ data, n_bytes,
              s1\<lparr>current_block_position := current_block_position s1 + (n_bytes - read_bytes),
                 current_region_position := current_region_position s1 + n_bytes\<rparr>)))"

definition storage_read_in_region :: "nat \<Rightarrow> size_t \<Rightarrow> storage_state
    \<Rightarrow> (byte list \<times> size_t \<times> storage_state) option" where
  "storage_read_in_region fuel n_bytes s =
     (if \<not> storage_initialized s then Some ([], 0, s)
      else read_loop fuel n_bytes 0 [] s)"

text \<open>
  \<open>storage_write_in_region\<close>. The buffer is the list of the bytes the pointer leads to; a
  \<open>write\<close> whose count leads beyond them reads past the buffer, which is undefined (\<open>None\<close>),
  and so is a negative \<open>bytes_to_write\<close>, which makes a count beyond every buffer.
\<close>

fun write_loop :: "nat \<Rightarrow> byte list \<Rightarrow> size_t \<Rightarrow> size_t \<Rightarrow> storage_state
    \<Rightarrow> (size_t \<times> storage_state) option" where
  "write_loop 0 buffer n_bytes written_bytes s = None"
| "write_loop (Suc fuel) buffer n_bytes written_bytes s =
     (if current_block_position s + n_bytes - written_bytes \<ge> ucast (active_block_size s) then
        (let bytes_to_write =
               to_int (uint (ucast (active_block_size s) - current_block_position s :: size_t))
         in if bytes_to_write < 0
               \<or> length buffer < unat written_bytes + nat bytes_to_write then None
            else
              (let s1 = host_write
                          (take (nat bytes_to_write) (drop (unat written_bytes) buffer)) s;
                   written_bytes' = written_bytes + word_of_int bytes_to_write
               in if next_block (current_block s1) \<noteq> INVALID_BLOCK then
                    write_loop fuel buffer n_bytes written_bytes'
                      (jump_to_block (next_block (current_block s1)) s1)
                  else
                    (let current = current_block_index s1;
                         (new_block, s2) = allocate_block (current_block_index s1) s1
                     in if new_block = INVALID_BLOCK then Some (written_bytes', s2)
                        else
                          (let s3 = jump_to_block current s2;
                               s4 = host_write (le16 new_block) (host_lseek_cur (- 2) s3);
                               s5 = jump_to_block new_block s4
                           in write_loop fuel buffer n_bytes written_bytes' s5))))
      else if length buffer < unat written_bytes + unat (n_bytes - written_bytes) then None
      else
        (let s1 = host_write
                    (take (unat (n_bytes - written_bytes)) (drop (unat written_bytes) buffer)) s
         in Some (n_bytes,
              s1\<lparr>current_block_position := current_block_position s1 + (n_bytes - written_bytes),
                 current_region_position := current_region_position s1 + n_bytes\<rparr>)))"

definition storage_write_in_region :: "nat \<Rightarrow> byte list \<Rightarrow> size_t \<Rightarrow> storage_state
    \<Rightarrow> (size_t \<times> storage_state) option" where
  "storage_write_in_region fuel buffer n_bytes s =
     (if \<not> storage_initialized s then Some (0, s)
      else write_loop fuel buffer n_bytes 0 s)"

text \<open>
  \<open>storage_seek_in_region\<close>. The loop conditions compare \<open>size_t\<close> values: in the backward
  branch \<open>current_block_position_ + offset - sought_bytes < 0\<close> is an unsigned comparison
  with 0.
\<close>

fun seek_forward_loop :: "nat \<Rightarrow> off_t \<Rightarrow> off_t \<Rightarrow> storage_state
    \<Rightarrow> (off_t \<times> storage_state) option" where
  "seek_forward_loop 0 offset sought_bytes s = None"
| "seek_forward_loop (Suc fuel) offset sought_bytes s =
     (if current_block_position s + offset - sought_bytes \<ge> ucast (active_block_size s) then
        seek_forward_loop fuel offset
          (sought_bytes + (ucast (active_block_size s) - current_block_position s))
          (jump_to_block (next_block (current_block s)) s)
      else Some (sought_bytes, s))"

fun seek_backward_loop :: "nat \<Rightarrow> off_t \<Rightarrow> off_t \<Rightarrow> storage_state
    \<Rightarrow> (off_t \<times> storage_state) option" where
  "seek_backward_loop 0 offset sought_bytes s = None"
| "seek_backward_loop (Suc fuel) offset sought_bytes s =
     (if current_block_position s + offset - sought_bytes < 0 then
        (let sought_bytes' = sought_bytes - (current_block_position s + 1);
             s1 = jump_to_block (previous_block (current_block s)) s;
             s2 = host_lseek_cur (int (unat (active_block_size s1)) - 1) s1
         in seek_backward_loop fuel offset sought_bytes'
              (s2\<lparr>current_block_position := ucast (active_block_size s2) - 1\<rparr>))
      else Some (sought_bytes, s))"

definition storage_seek_in_region :: "nat \<Rightarrow> off_t \<Rightarrow> storage_state
    \<Rightarrow> (size_t \<times> storage_state) option" where
  "storage_seek_in_region fuel offset s =
     (if \<not> storage_initialized s then Some (current_region_position s, s)
      else
        do {
          s' \<leftarrow>
            (if 0 < sint offset then
               do {
                 (sought_bytes, s1) \<leftarrow> seek_forward_loop fuel offset 0 s;
                 Some ((host_lseek_cur (sint (offset - sought_bytes)) s1)
                   \<lparr>current_block_position := current_block_position s1 + (offset - sought_bytes)\<rparr>)
               }
             else if sint offset < 0 then
               do {
                 (sought_bytes, s1) \<leftarrow> seek_backward_loop fuel offset 0 s;
                 Some ((host_lseek_cur (sint (offset - sought_bytes)) s1)
                   \<lparr>current_block_position := current_block_position s1 + (offset - sought_bytes)\<rparr>)
               }
             else Some s);
          Some (current_region_position s' + offset,
                s'\<lparr>current_region_position := current_region_position s' + offset\<rparr>)
        })"

text \<open>
  \<open>create_storage_file\<close> and \<open>storage_initialize\<close>. Creating the file fails when it exists
  (\<open>O_EXCL\<close>); the host is assumed to let the program open a file that exists.
\<close>

definition create_storage_file :: "16 word \<Rightarrow> 16 word \<Rightarrow> storage_state \<Rightarrow> storage_state" where
  "create_storage_file block_size block_count s =
     (if disk_exists s then s
      else s\<lparr>disk_exists := True,
             disk := le16 block_size @ le16 block_count
               @ ([BLOCK_IN_USE_INDICATOR] @ le16 INVALID_BLOCK @ le16 INVALID_BLOCK
                    @ replicate (unat block_size) 0)
               @ concat (replicate (unat block_count - 1)
                   ([BLOCK_NOT_IN_USE_INDICATOR] @ le16 INVALID_BLOCK @ le16 INVALID_BLOCK
                      @ replicate (unat block_size) 0))\<rparr>)"

definition storage_initialize :: "storage_state \<Rightarrow> int \<times> storage_state" where
  "storage_initialize s =
     (if storage_initialized s then (- 1, s)
      else
        (let s1 = (if disk_exists s then s
                   else create_storage_file DEFAULT_BLOCK_SIZE DEFAULT_BLOCK_COUNT s)
         in if \<not> disk_exists s1 then (- 1, s1)
            else
              (let s2 = s1\<lparr>storage_file := True, file_offset := 0\<rparr>;
                   (b1, s3) = host_read 2 s2;
                   s4 = s3\<lparr>active_block_size := store16 (active_block_size s3) b1\<rparr>;
                   (b2, s5) = host_read 2 s4;
                   s6 = s5\<lparr>active_block_count := store16 (active_block_count s5) b2\<rparr>
               in (0, s6))))"

text \<open>The globals as the program starts: no descriptor open, all counters zero.\<close>

definition initial_storage :: "byte list option \<Rightarrow> storage_state" where
  "initial_storage host =
     \<lparr>disk_exists = (host \<noteq> None),
      disk = (case host of None \<Rightarrow> [] | Some d \<Rightarrow> d),
      storage_file = False,
      file_offset = 0,
      active_block_size = 0,
      active_block_count = 0,
      current_block_index = 0,
      current_block_position = 0,
      current_region_position = 0,
      current_block = \<lparr>in_use = 0, previous_block = 0, next_block = 0\<rparr>\<rparr>"


section \<open>The file-system layer (virtualFileSystem.c)\<close>

definition MAX_DESCRIPTORS :: nat where
  "MAX_DESCRIPTORS = 256"

text \<open>The entry types of a directory, as the byte that stands on the disk.\<close>

definition NULL_ENTRY :: byte where
  "NULL_ENTRY = 0"

definition UNUSED_ENTRY :: byte where
  "UNUSED_ENTRY = 1"

definition FILE_ENTRY :: byte where
  "FILE_ENTRY = 2"

definition DIRECTORY_ENTRY :: byte where
  "DIRECTORY_ENTRY = 3"

text \<open>
  The flag bits and the \<open>whence\<close> values come from the host's \<open>fcntl.h\<close> and \<open>unistd.h\<close>,
  which are not part of the repository; the values are those of Linux.
\<close>

definition O_CREAT :: "32 word" where
  "O_CREAT = 64"

definition O_EXCL :: "32 word" where
  "O_EXCL = 128"

definition O_TRUNC :: "32 word" where
  "O_TRUNC = 512"

definition O_APPEND :: "32 word" where
  "O_APPEND = 1024"

definition SEEK_SET :: int where
  "SEEK_SET = 0"

definition SEEK_CUR :: int where
  "SEEK_CUR = 1"

definition SEEK_END :: int where
  "SEEK_END = 2"

record virtual_file =
  content_region :: storage_region
  metadata_region :: storage_region
  file_length :: size_t
  reader_position :: size_t

text \<open>
  The globals of \<open>virtualFileSystem.c\<close>: the descriptor table (a \<open>NULL\<close> slot is \<open>None\<close>) and
  the descriptor the engine's cursor was last placed for; \<open>engine\<close> holds the globals of
  the storage module.
\<close>

record fs_state =
  descriptors :: "nat \<Rightarrow> virtual_file option"
  last_used_descriptor :: int
  engine :: storage_state

definition root_directory_region :: storage_region where
  "root_directory_region = 0"

definition invalid_file :: virtual_file where
  "invalid_file = \<lparr>content_region = INVALID_REGION, metadata_region = INVALID_REGION,
                    file_length = 0, reader_position = 0\<rparr>"

text \<open>
  A C string is the list of its bytes before the terminating NUL; \<open>strcmp\<close> and \<open>strlen\<close>
  look no further than the first NUL.
\<close>

definition c_str :: "byte list \<Rightarrow> byte list" where
  "c_str bs = takeWhile (\<lambda>b. b \<noteq> 0) bs"

definition strcmp_eq :: "byte list \<Rightarrow> byte list \<Rightarrow> bool" where
  "strcmp_eq a b = (c_str a = c_str b)"

definition slash :: byte where
  "slash = 47"

text \<open>
  The four statements that read a name from a metadata region (they stand in
  \<open>navigate_to_virtual_directory\<close>, \<open>find_virtual_file\<close>, \<open>unlink_virtual\<close> and
  \<open>rmdir_virtual\<close>): the length is read into a \<open>char\<close>; a negative length makes the
  \<open>malloc\<close> and the read that follow undefined.
\<close>

definition read_name :: "nat \<Rightarrow> storage_state \<Rightarrow> (byte list \<times> storage_state) option" where
  "read_name fuel s =
     do {
       (b, _, s1) \<leftarrow> storage_read_in_region fuel 1 s;
       let name_length = load8 b;
       if sint name_length < 0 then None
       else do {
         (name, _, s2) \<leftarrow> storage_read_in_region fuel (scast name_length) s1;
         Some (name, s2)
       }
     }"

text \<open>
  The inner loop of \<open>navigate_to_virtual_directory\<close>: the scan of the current directory for
  the next directory of the path. \<open>Some region\<close> is the content region jumped into,
  \<open>None\<close> the end of the directory.
\<close>

fun find_directory :: "nat \<Rightarrow> byte list \<Rightarrow> storage_region \<Rightarrow> storage_state
    \<Rightarrow> (storage_region option \<times> storage_state) option" where
  "find_directory 0 directory_name directory_region s = None"
| "find_directory (Suc fuel) directory_name directory_region s =
     do {
       (b, _, s1) \<leftarrow> storage_read_in_region (Suc fuel) 1 s;
       let entry_type = load8 b;
       if entry_type = NULL_ENTRY then Some (None, s1)
       else if entry_type \<noteq> DIRECTORY_ENTRY then
         do {
           (_, s2) \<leftarrow> storage_seek_in_region (Suc fuel) 4 s1;
           find_directory fuel directory_name directory_region s2
         }
       else
         do {
           (bm, _, s2) \<leftarrow> storage_read_in_region (Suc fuel) 2 s1;
           (bc, _, s3) \<leftarrow> storage_read_in_region (Suc fuel) 2 s2;
           (next_entry_position, s4) \<leftarrow> storage_seek_in_region (Suc fuel) 0 s3;
           (entry_name, s5) \<leftarrow>
             read_name (Suc fuel) (snd (storage_jump_to_region (load16 bm) s4));
           if strcmp_eq entry_name directory_name then
             Some (Some (load16 bc), snd (storage_jump_to_region (load16 bc) s5))
           else
             do {
               (_, s6) \<leftarrow> storage_seek_in_region (Suc fuel) next_entry_position
                             (snd (storage_jump_to_region directory_region s5));
               find_directory fuel directory_name directory_region s6
             }
         }
     }"

text \<open>
  The loop over the characters of the path: \<open>name\<close> collects the characters since the last
  slash. The result is the remainder of the path and the region of the directory reached
  (\<open>INVALID_REGION\<close>, with no remainder, when a directory of the path does not exist).
\<close>

fun navigate_path :: "nat \<Rightarrow> byte list \<Rightarrow> byte list \<Rightarrow> storage_region \<Rightarrow> storage_state
    \<Rightarrow> ((byte list \<times> storage_region) \<times> storage_state) option" where
  "navigate_path fuel [] name directory_region s = Some ((name, directory_region), s)"
| "navigate_path fuel (c # cs) name directory_region s =
     (if c = slash then
        do {
          (found, s1) \<leftarrow> find_directory fuel name directory_region s;
          (case found of
             None \<Rightarrow> Some (([], INVALID_REGION), s1)
           | Some region \<Rightarrow> navigate_path fuel cs [] region s1)
        }
      else navigate_path fuel cs (name @ [c]) directory_region s)"

definition navigate_to_virtual_directory :: "nat \<Rightarrow> byte list \<Rightarrow> storage_state
    \<Rightarrow> ((byte list \<times> storage_region) \<times> storage_state) option" where
  "navigate_to_virtual_directory fuel path s =
     (let s0 = (if \<not> storage_initialized s then snd (storage_initialize s) else s)
      in navigate_path fuel (c_str path) [] root_directory_region
           (snd (storage_jump_to_region root_directory_region s0)))"

fun find_file_entry :: "nat \<Rightarrow> byte list \<Rightarrow> storage_region \<Rightarrow> storage_state
    \<Rightarrow> (virtual_file \<times> storage_state) option" where
  "find_file_entry 0 file_name directory_region s = None"
| "find_file_entry (Suc fuel) file_name directory_region s =
     do {
       (b, _, s1) \<leftarrow> storage_read_in_region (Suc fuel) 1 s;
       let entry_type = load8 b;
       if entry_type = NULL_ENTRY then Some (invalid_file, s1)
       else if entry_type \<noteq> FILE_ENTRY then
         do {
           (_, s2) \<leftarrow> storage_seek_in_region (Suc fuel) 4 s1;
           find_file_entry fuel file_name directory_region s2
         }
       else
         do {
           (bm, _, s2) \<leftarrow> storage_read_in_region (Suc fuel) 2 s1;
           (bc, _, s3) \<leftarrow> storage_read_in_region (Suc fuel) 2 s2;
           (next_entry_position, s4) \<leftarrow> storage_seek_in_region (Suc fuel) 0 s3;
           (bl, _, s5) \<leftarrow>
             storage_read_in_region (Suc fuel) 8 (snd (storage_jump_to_region (load16 bm) s4));
           (name, s6) \<leftarrow> read_name (Suc fuel) s5;
           if strcmp_eq name file_name then
             Some (\<lparr>content_region = load16 bc, metadata_region = load16 bm,
                    file_length = load64 bl, reader_position = 0\<rparr>, s6)
           else
             do {
               (_, s7) \<leftarrow> storage_seek_in_region (Suc fuel) next_entry_position
                             (snd (storage_jump_to_region directory_region s6));
               find_file_entry fuel file_name directory_region s7
             }
         }
     }"

definition find_virtual_file :: "nat \<Rightarrow> byte list \<Rightarrow> storage_state
    \<Rightarrow> (virtual_file \<times> storage_state) option" where
  "find_virtual_file fuel file_path s =
     do {
       ((remainder_path, directory_region), s1) \<leftarrow> navigate_to_virtual_directory fuel file_path s;
       if directory_region = INVALID_REGION then Some (invalid_file, s1)
       else find_file_entry fuel remainder_path directory_region s1
     }"

text \<open>
  The scan for the first free entry of a directory (\<open>create_virtual_file\<close> and
  \<open>mkdir_virtual\<close>): it stops behind the type byte of a NULL or UNUSED entry.
\<close>

fun find_free_entry :: "nat \<Rightarrow> storage_state \<Rightarrow> storage_state option" where
  "find_free_entry 0 s = None"
| "find_free_entry (Suc fuel) s =
     do {
       (b, _, s1) \<leftarrow> storage_read_in_region (Suc fuel) 1 s;
       let entry_type = load8 b;
       if entry_type = NULL_ENTRY \<or> entry_type = UNUSED_ENTRY then Some s1
       else
         do {
           (_, s2) \<leftarrow> storage_seek_in_region (Suc fuel) 4 s1;
           find_free_entry fuel s2
         }
     }"

text \<open>
  The directory entry that \<open>create_virtual_file\<close> and \<open>mkdir_virtual\<close> write: the type, the
  metadata region and the content region, at the entry \<open>find_free_entry\<close> stopped behind.
\<close>

definition write_entry :: "nat \<Rightarrow> byte \<Rightarrow> storage_region \<Rightarrow> storage_region \<Rightarrow> storage_state
    \<Rightarrow> storage_state option" where
  "write_entry fuel entry_type metadata content s =
     do {
       s1 \<leftarrow> find_free_entry fuel s;
       (_, s2) \<leftarrow> storage_seek_in_region fuel (- 1) s1;
       (_, s3) \<leftarrow> storage_write_in_region fuel [entry_type] 1 s2;
       (_, s4) \<leftarrow> storage_write_in_region fuel (le16 metadata) 2 s3;
       (_, s5) \<leftarrow> storage_write_in_region fuel (le16 content) 2 s4;
       Some s5
     }"

text \<open>
  \<open>char remainder_path_length = strlen(...)\<close> keeps the low byte of the length; as the
  count of the write it is converted to \<open>size_t\<close> with its sign.
\<close>

definition path_length :: "byte list \<Rightarrow> size_t" where
  "path_length name = scast (word_of_nat (length name) :: byte)"

definition create_virtual_file :: "nat \<Rightarrow> byte list \<Rightarrow> storage_state
    \<Rightarrow> (virtual_file \<times> storage_state) option" where
  "create_virtual_file fuel file_path s =
     do {
       ((remainder_path, directory_region), s1) \<leftarrow> navigate_to_virtual_directory fuel file_path s;
       if directory_region = INVALID_REGION then Some (invalid_file, s1)
       else
         (let (content, s2) = storage_allocate_region s1 in
          if content = INVALID_REGION then Some (invalid_file, s2)
          else
            (let (metadata, s3) = storage_allocate_region s2 in
             if metadata = INVALID_REGION then
               do {
                 (_, s4) \<leftarrow> storage_free_region fuel content s3;
                 Some (invalid_file, s4)
               }
             else
               do {
                 s4 \<leftarrow> write_entry fuel FILE_ENTRY metadata content
                         (snd (storage_jump_to_region directory_region s3));
                 (_, s5) \<leftarrow> storage_write_in_region fuel (le64 0) 8
                               (snd (storage_jump_to_region metadata s4));
                 (_, s6) \<leftarrow> storage_write_in_region fuel
                               [word_of_nat (length remainder_path)] 1 s5;
                 (_, s7) \<leftarrow> storage_write_in_region fuel remainder_path
                               (path_length remainder_path) s6;
                 Some (\<lparr>content_region = content, metadata_region = metadata,
                        file_length = 0, reader_position = 0\<rparr>, s7)
               }))
     }"

definition invalidate_last_descriptor :: "fs_state \<Rightarrow> fs_state" where
  "invalidate_last_descriptor f = f\<lparr>last_used_descriptor := - 1\<rparr>"

definition update_virtual_file_metadata :: "nat \<Rightarrow> storage_region \<Rightarrow> size_t \<Rightarrow> fs_state
    \<Rightarrow> fs_state option" where
  "update_virtual_file_metadata fuel metadata file_size f =
     do {
       (_, s1) \<leftarrow> storage_write_in_region fuel (le64 file_size) 8
                     (snd (storage_jump_to_region metadata (engine f)));
       Some (invalidate_last_descriptor (f\<lparr>engine := s1\<rparr>))
     }"

text \<open>The caller has checked that the descriptor is open.\<close>

definition jump_to_file_if_needed :: "nat \<Rightarrow> int \<Rightarrow> fs_state \<Rightarrow> fs_state option" where
  "jump_to_file_if_needed fuel file_descriptor f =
     (if last_used_descriptor f = file_descriptor then Some f
      else
        (case descriptors f (nat file_descriptor) of
           None \<Rightarrow> None
         | Some file \<Rightarrow>
             do {
               (_, s1) \<leftarrow> storage_seek_in_region fuel (reader_position file)
                             (snd (storage_jump_to_region (content_region file) (engine f)));
               Some (f\<lparr>engine := s1, last_used_descriptor := file_descriptor\<rparr>)
             }))"

text \<open>The scan of the descriptor table for the first free slot, \<open>- 1\<close> when there is none.\<close>

fun first_free_slot :: "(nat \<Rightarrow> virtual_file option) \<Rightarrow> nat \<Rightarrow> nat \<Rightarrow> int" where
  "first_free_slot d i 0 = - 1"
| "first_free_slot d i (Suc k) = (if d i = None then int i else first_free_slot d (Suc i) k)"

definition valid_descriptor :: "fs_state \<Rightarrow> int \<Rightarrow> bool" where
  "valid_descriptor f file_descriptor =
     (\<not> (file_descriptor < 0 \<or> file_descriptor \<ge> int MAX_DESCRIPTORS
         \<or> descriptors f (nat file_descriptor) = None))"


text \<open>
  \<open>open_virtual\<close>. The descriptor slot receives a copy of \<open>file\<close> (line 96 of the source)
  before the branches for \<open>O_TRUNC\<close> and \<open>O_APPEND\<close> change the local variable \<open>file\<close>;
  \<open>file'\<close> below is that local variable, which nothing reads afterwards.
\<close>

definition open_virtual :: "nat \<Rightarrow> byte list \<Rightarrow> 32 word \<Rightarrow> fs_state \<Rightarrow> (int \<times> fs_state) option" where
  "open_virtual fuel path flags f =
     (let f0 = (if \<not> storage_initialized (engine f)
                then f\<lparr>engine := snd (storage_initialize (engine f))\<rparr> else f);
          first_available_descriptor = first_free_slot (descriptors f0) 0 MAX_DESCRIPTORS
      in if first_available_descriptor = - 1 then Some (- 1, f0)
         else
           do {
             let f1 = invalidate_last_descriptor f0;
             (file, s1) \<leftarrow> find_virtual_file fuel path (engine f1);
             (opened, s2) \<leftarrow>
               (if content_region file = INVALID_REGION then
                  (if flags AND O_CREAT = 0 then Some (None, s1)
                   else
                     do {
                       (created, s2) \<leftarrow> create_virtual_file fuel path s1;
                       Some (if content_region created = INVALID_REGION then None
                             else Some created, s2)
                     })
                else if flags AND O_EXCL \<noteq> 0 then Some (None, s1)
                else Some (Some file, s1));
             (case opened of
                None \<Rightarrow> Some (- 1, f1\<lparr>engine := s2\<rparr>)
              | Some file \<Rightarrow>
                  do {
                    let f2 = f1\<lparr>descriptors :=
                                 (descriptors f1)(nat first_available_descriptor \<mapsto> file)\<rparr>;
                    (file', s3) \<leftarrow>
                      (if flags AND O_TRUNC \<noteq> 0 then
                         do {
                           (_, s3) \<leftarrow> storage_free_region fuel (content_region file) s2;
                           let (region, s4) = storage_allocate_region s3;
                           Some (file\<lparr>content_region := region, file_length := 0\<rparr>, s4)
                         }
                       else Some (file, s2));
                    let file' = (if flags AND O_APPEND \<noteq> 0
                                 then file'\<lparr>reader_position := file_length file'\<rparr> else file');
                    Some (first_available_descriptor, f2\<lparr>engine := s3\<rparr>)
                  })
           })"

definition close_virtual :: "int \<Rightarrow> fs_state \<Rightarrow> fs_state" where
  "close_virtual file_descriptor f =
     (if \<not> valid_descriptor f file_descriptor then f
      else f\<lparr>descriptors := (descriptors f)(nat file_descriptor := None)\<rparr>)"

definition mkdir_virtual :: "nat \<Rightarrow> byte list \<Rightarrow> fs_state \<Rightarrow> (int \<times> fs_state) option" where
  "mkdir_virtual fuel directory_path f =
     (let f0 = invalidate_last_descriptor f in
      do {
        ((remainder_path, directory_region), s1) \<leftarrow>
          navigate_to_virtual_directory fuel directory_path (engine f0);
        if directory_region = INVALID_REGION then Some (- 1, f0\<lparr>engine := s1\<rparr>)
        else
          (let (content, s2) = storage_allocate_region s1 in
           if content = INVALID_REGION then Some (- 1, f0\<lparr>engine := s2\<rparr>)
           else
             (let (metadata, s3) = storage_allocate_region s2 in
              if metadata = INVALID_REGION then
                do {
                  (_, s4) \<leftarrow> storage_free_region fuel content s3;
                  Some (- 1, f0\<lparr>engine := s4\<rparr>)
                }
              else
                do {
                  s4 \<leftarrow> write_entry fuel DIRECTORY_ENTRY metadata content
                          (snd (storage_jump_to_region directory_region s3));
                  (_, s5) \<leftarrow> storage_write_in_region fuel
                                [word_of_nat (length remainder_path)] 1
                                (snd (storage_jump_to_region metadata s4));
                  (_, s6) \<leftarrow> storage_write_in_region fuel remainder_path
                                (path_length remainder_path) s5;
                  Some (0, f0\<lparr>engine := s6\<rparr>)
                }))
      })"

text \<open>
  The inner loop of \<open>rmdir_virtual\<close>: the directory is empty when the scan reaches a NULL
  entry over UNUSED entries only.
\<close>

fun directory_is_empty :: "nat \<Rightarrow> storage_state \<Rightarrow> (bool \<times> storage_state) option" where
  "directory_is_empty 0 s = None"
| "directory_is_empty (Suc fuel) s =
     do {
       (b, _, s1) \<leftarrow> storage_read_in_region (Suc fuel) 1 s;
       let entry_type = load8 b;
       if entry_type = NULL_ENTRY then Some (True, s1)
       else if entry_type = UNUSED_ENTRY then
         do {
           (_, s2) \<leftarrow> storage_seek_in_region (Suc fuel) 4 s1;
           directory_is_empty fuel s2
         }
       else Some (False, s1)
     }"

text \<open>
  The outer loop of \<open>rmdir_virtual\<close>. The entry found is marked at \<open>entry_position\<close> of the
  region \<open>root_directory_region_\<close> (line 291 of the source).
\<close>

fun remove_directory_entry :: "nat \<Rightarrow> byte list \<Rightarrow> storage_region \<Rightarrow> storage_state
    \<Rightarrow> (int \<times> storage_state) option" where
  "remove_directory_entry 0 directory_name directory_region s = None"
| "remove_directory_entry (Suc fuel) directory_name directory_region s =
     do {
       (entry_position, s0) \<leftarrow> storage_seek_in_region (Suc fuel) 0 s;
       (b, _, s1) \<leftarrow> storage_read_in_region (Suc fuel) 1 s0;
       let entry_type = load8 b;
       if entry_type = NULL_ENTRY then Some (- 1, s1)
       else if entry_type \<noteq> DIRECTORY_ENTRY then
         do {
           (_, s2) \<leftarrow> storage_seek_in_region (Suc fuel) 4 s1;
           remove_directory_entry fuel directory_name directory_region s2
         }
       else
         do {
           (bm, _, s2) \<leftarrow> storage_read_in_region (Suc fuel) 2 s1;
           (bc, _, s3) \<leftarrow> storage_read_in_region (Suc fuel) 2 s2;
           (next_entry_position, s4) \<leftarrow> storage_seek_in_region (Suc fuel) 0 s3;
           (name, s5) \<leftarrow> read_name (Suc fuel) (snd (storage_jump_to_region (load16 bm) s4));
           if strcmp_eq name directory_name then
             do {
               (empty, s6) \<leftarrow> directory_is_empty (Suc fuel)
                                (snd (storage_jump_to_region (load16 bc) s5));
               if \<not> empty then Some (- 1, s6)
               else
                 do {
                   (_, s7) \<leftarrow> storage_seek_in_region (Suc fuel) entry_position
                                 (snd (storage_jump_to_region root_directory_region s6));
                   (_, s8) \<leftarrow> storage_write_in_region (Suc fuel) [UNUSED_ENTRY] 1 s7;
                   (_, s9) \<leftarrow> storage_free_region (Suc fuel) (load16 bc) s8;
                   (_, s10) \<leftarrow> storage_free_region (Suc fuel) (load16 bm) s9;
                   Some (0, s10)
                 }
             }
           else
             do {
               (_, s6) \<leftarrow> storage_seek_in_region (Suc fuel) next_entry_position
                             (snd (storage_jump_to_region directory_region s5));
               remove_directory_entry fuel directory_name directory_region s6
             }
         }
     }"

definition rmdir_virtual :: "nat \<Rightarrow> byte list \<Rightarrow> fs_state \<Rightarrow> (int \<times> fs_state) option" where
  "rmdir_virtual fuel directory_path f =
     (let f0 = invalidate_last_descriptor f in
      do {
        ((remainder_path, directory_region), s1) \<leftarrow>
          navigate_to_virtual_directory fuel directory_path (engine f0);
        if directory_region = INVALID_REGION then Some (- 1, f0\<lparr>engine := s1\<rparr>)
        else
          do {
            (r, s2) \<leftarrow> remove_directory_entry fuel remainder_path directory_region s1;
            Some (r, f0\<lparr>engine := s2\<rparr>)
          }
      })"

text \<open>
  The loop of \<open>unlink_virtual\<close>. The entry found is marked at \<open>entry_position\<close> of the
  directory that holds it.
\<close>

fun remove_file_entry :: "nat \<Rightarrow> byte list \<Rightarrow> storage_region \<Rightarrow> storage_state
    \<Rightarrow> (int \<times> storage_state) option" where
  "remove_file_entry 0 file_name directory_region s = None"
| "remove_file_entry (Suc fuel) file_name directory_region s =
     do {
       (entry_position, s0) \<leftarrow> storage_seek_in_region (Suc fuel) 0 s;
       (b, _, s1) \<leftarrow> storage_read_in_region (Suc fuel) 1 s0;
       let entry_type = load8 b;
       if entry_type = NULL_ENTRY then Some (- 1, s1)
       else if entry_type \<noteq> FILE_ENTRY then
         do {
           (_, s2) \<leftarrow> storage_seek_in_region (Suc fuel) 4 s1;
           remove_file_entry fuel file_name directory_region s2
         }
       else
         do {
           (bm, _, s2) \<leftarrow> storage_read_in_region (Suc fuel) 2 s1;
           (bc, _, s3) \<leftarrow> storage_read_in_region (Suc fuel) 2 s2;
           (next_entry_position, s4) \<leftarrow> storage_seek_in_region (Suc fuel) 0 s3;
           (bl, _, s5) \<leftarrow>
             storage_read_in_region (Suc fuel) 8 (snd (storage_jump_to_region (load16 bm) s4));
           (name, s6) \<leftarrow> read_name (Suc fuel) s5;
           if strcmp_eq name file_name then
             do {
               (_, s7) \<leftarrow> storage_seek_in_region (Suc fuel) entry_position
                             (snd (storage_jump_to_region directory_region s6));
               (_, s8) \<leftarrow> storage_write_in_region (Suc fuel) [UNUSED_ENTRY] 1 s7;
               (_, s9) \<leftarrow> storage_free_region (Suc fuel) (load16 bc) s8;
               (_, s10) \<leftarrow> storage_free_region (Suc fuel) (load16 bm) s9;
               Some (0, s10)
             }
           else
             do {
               (_, s7) \<leftarrow> storage_seek_in_region (Suc fuel) next_entry_position
                             (snd (storage_jump_to_region directory_region s6));
               remove_file_entry fuel file_name directory_region s7
             }
         }
     }"

definition unlink_virtual :: "nat \<Rightarrow> byte list \<Rightarrow> fs_state \<Rightarrow> (int \<times> fs_state) option" where
  "unlink_virtual fuel file_path f =
     (let f0 = invalidate_last_descriptor f in
      do {
        ((remainder_path, directory_region), s1) \<leftarrow>
          navigate_to_virtual_directory fuel file_path (engine f0);
        if directory_region = INVALID_REGION then Some (- 1, f0\<lparr>engine := s1\<rparr>)
        else
          do {
            (r, s2) \<leftarrow> remove_file_entry fuel remainder_path directory_region s1;
            Some (r, f0\<lparr>engine := s2\<rparr>)
          }
      })"

text \<open>
  \<open>read_virtual\<close> gives the buffer as the engine filled it, and the count it returns.
\<close>

definition read_virtual :: "nat \<Rightarrow> int \<Rightarrow> size_t \<Rightarrow> fs_state
    \<Rightarrow> (byte list \<times> size_t \<times> fs_state) option" where
  "read_virtual fuel file_descriptor n_bytes f =
     (if \<not> valid_descriptor f file_descriptor then Some ([], 0, f)
      else
        do {
          f1 \<leftarrow> jump_to_file_if_needed fuel file_descriptor f;
          (case descriptors f1 (nat file_descriptor) of
             None \<Rightarrow> None
           | Some file \<Rightarrow>
               (let bytes_to_read =
                      (if reader_position file + n_bytes > file_length file
                       then file_length file - reader_position file else n_bytes)
                in do {
                     (buffer, _, s1) \<leftarrow> storage_read_in_region fuel bytes_to_read (engine f1);
                     Some (buffer, bytes_to_read,
                       f1\<lparr>descriptors := (descriptors f1)(nat file_descriptor \<mapsto>
                              file\<lparr>reader_position := reader_position file + bytes_to_read\<rparr>),
                          engine := s1\<rparr>)
                   }))
        })"

definition write_virtual :: "nat \<Rightarrow> int \<Rightarrow> byte list \<Rightarrow> size_t \<Rightarrow> fs_state
    \<Rightarrow> (size_t \<times> fs_state) option" where
  "write_virtual fuel file_descriptor buffer n_bytes f =
     (if \<not> valid_descriptor f file_descriptor then Some (0, f)
      else
        do {
          f1 \<leftarrow> jump_to_file_if_needed fuel file_descriptor f;
          (_, s1) \<leftarrow> storage_write_in_region fuel buffer n_bytes (engine f1);
          (case descriptors f1 (nat file_descriptor) of
             None \<Rightarrow> None
           | Some file \<Rightarrow>
               (let file1 = file\<lparr>reader_position := reader_position file + n_bytes\<rparr> in
                if reader_position file1 \<ge> file_length file1 then
                  (let file2 = file1\<lparr>file_length := reader_position file1 + 1\<rparr> in
                   do {
                     f2 \<leftarrow> update_virtual_file_metadata fuel (metadata_region file2)
                             (file_length file2)
                             (f1\<lparr>descriptors := (descriptors f1)(nat file_descriptor \<mapsto> file2),
                                 engine := s1\<rparr>);
                     Some (n_bytes, f2)
                   })
                else
                  Some (n_bytes,
                    f1\<lparr>descriptors := (descriptors f1)(nat file_descriptor \<mapsto> file1),
                       engine := s1\<rparr>)))
        })"

definition seek_virtual :: "int \<Rightarrow> off_t \<Rightarrow> int \<Rightarrow> fs_state \<Rightarrow> off_t \<times> fs_state" where
  "seek_virtual file_descriptor offset whence f =
     (if \<not> valid_descriptor f file_descriptor then (- 1, f)
      else
        (case descriptors f (nat file_descriptor) of
           None \<Rightarrow> (- 1, f)
         | Some file \<Rightarrow>
             if whence \<noteq> SEEK_SET \<and> whence \<noteq> SEEK_CUR \<and> whence \<noteq> SEEK_END
             then (reader_position file, f)
             else
               (let new_position =
                      (if whence = SEEK_SET then offset
                       else if whence = SEEK_CUR then reader_position file + offset
                       else file_length file + offset);
                    new_position =
                      (if sint new_position < 0 then 0
                       else if new_position > file_length file then file_length file
                       else new_position)
                in (new_position,
                    f\<lparr>descriptors := (descriptors f)(nat file_descriptor \<mapsto>
                         file\<lparr>reader_position := new_position\<rparr>)\<rparr>))))"

text \<open>The program as it starts, with the host's file \<open>./virtualStorage\<close> absent or given.\<close>

definition initial_fs :: "byte list option \<Rightarrow> fs_state" where
  "initial_fs host =
     \<lparr>descriptors = (\<lambda>_. None), last_used_descriptor = - 1, engine = initial_storage host\<rparr>"

section \<open>The backing file as a list of blocks\<close>

text \<open>
  A backing file that is laid out as the storage engine expects is the file header followed
  by the blocks, each a header of five bytes and its payload. \<open>render\<close> gives the bytes of
  such a file from the list of its blocks; \<open>disk_state\<close> is the state of the engine whose
  file is open and holds these bytes. \<open>blocks_ok\<close> says that the list has \<open>block_count\<close>
  blocks of \<open>block_size\<close> payload bytes and that the file is smaller than 2 GiB, so that
  every position \<open>jump_to_block\<close> computes is the position of its block. The lemmas of
  this section express the host calls and \<open>jump_to_block\<close> on such states by the blocks.
\<close>

datatype block = Block (b_use: byte) (b_prev: block_index) (b_next: block_index) (b_payload: "byte list")

definition render_block :: "block \<Rightarrow> byte list" where
  "render_block b = b_use b # le16 (b_prev b) @ le16 (b_next b) @ b_payload b"

definition parse_block :: "byte list \<Rightarrow> block" where
  "parse_block xs =
     (case xs of
        u # p0 # p1 # n0 # n1 # pl \<Rightarrow> Block u (le_word [p0, p1]) (le_word [n0, n1]) pl
      | _ \<Rightarrow> Block 0 0 0 [])"

definition render :: "16 word \<Rightarrow> 16 word \<Rightarrow> block list \<Rightarrow> byte list" where
  "render bsz bc blks = le16 bsz @ le16 bc @ concat (map render_block blks)"

definition blocks_ok :: "16 word \<Rightarrow> 16 word \<Rightarrow> block list \<Rightarrow> bool" where
  "blocks_ok bsz bc blks =
     (length blks = unat bc \<and> list_all (\<lambda>b. length (b_payload b) = unat bsz) blks
      \<and> 4 + (unat bsz + 5) * unat bc < 2147483648)"

definition header_info :: "block \<Rightarrow> block_info" where
  "header_info b = \<lparr>in_use = b_use b, previous_block = b_prev b, next_block = b_next b\<rparr>"

definition disk_state :: "16 word \<Rightarrow> 16 word \<Rightarrow> block list \<Rightarrow> nat \<Rightarrow> block_index \<Rightarrow> size_t
    \<Rightarrow> size_t \<Rightarrow> block_info \<Rightarrow> storage_state" where
  "disk_state bsz bc blks off ci cp rp cb =
     \<lparr>disk_exists = True, disk = render bsz bc blks, storage_file = True, file_offset = off,
      active_block_size = bsz, active_block_count = bc, current_block_index = ci,
      current_block_position = cp, current_region_position = rp, current_block = cb\<rparr>"

lemma length_le16 [simp]: "length (le16 w) = 2"
  by (simp add: le16_def)

lemma unat_le_word2: "unat (le_word [a, b] :: 16 word) = unat a + 256 * unat b"
proof -
  have ua: "unat a < 256" using unsigned_less [of a, where 'a = nat] by simp
  have ub: "unat b < 256" using unsigned_less [of b, where 'a = nat] by simp
  have "(le_word [a, b] :: 16 word) = word_of_nat (unat a + 256 * unat b)"
    by simp
  then have "unat (le_word [a, b] :: 16 word) = (unat a + 256 * unat b) mod 2 ^ LENGTH(16)"
    by (simp only: unat_of_nat)
  then show ?thesis using ua ub by simp
qed

lemma le_word_le16 [simp]: "le_word (le16 w) = (w :: 16 word)"
proof -
  have a: "unat (word_of_nat (unat w mod 256) :: byte) = unat w mod 256"
    by (simp add: unat_of_nat)
  have "unat w < 65536" using unsigned_less [of w, where 'a = nat] by simp
  then have "unat w div 256 < 256" by simp
  then have b: "unat (word_of_nat (unat w div 256) :: byte) = unat w div 256"
    by (simp add: unat_of_nat)
  have "unat (le_word (le16 w) :: 16 word) = unat w"
    unfolding le16_def unat_le_word2 a b by simp
  then show ?thesis by (rule word_unat_eq_iff [THEN iffD2])
qed

lemma le16_le_word [simp]: "le16 (le_word [a, b]) = [a, b]"
proof -
  have ua: "unat a < 256" using unsigned_less [of a, where 'a = nat] by simp
  have ub: "unat b < 256" using unsigned_less [of b, where 'a = nat] by simp
  show ?thesis
    unfolding le16_def unat_le_word2 using ua ub by simp
qed

lemma length_render_block [simp]: "length (render_block b) = length (b_payload b) + 5"
  by (simp add: render_block_def)

lemma parse_render [simp]: "parse_block (render_block b) = b"
proof (cases b)
  case (Block u p n pl)
  have "render_block b = u # (le16 p @ le16 n @ pl)"
    by (simp add: render_block_def Block)
  moreover obtain p0 p1 where p: "le16 p = [p0, p1]" by (simp add: le16_def)
  moreover obtain n0 n1 where n: "le16 n = [n0, n1]" by (simp add: le16_def)
  ultimately have "parse_block (render_block b) = Block u (le_word (le16 p)) (le_word (le16 n)) pl"
    by (simp add: parse_block_def del: le_word.simps)
  then show ?thesis by (simp add: Block del: le_word.simps)
qed


lemma render_parse [simp]: "5 \<le> length xs \<Longrightarrow> render_block (parse_block xs) = xs"
proof -
  assume "5 \<le> length xs"
  then obtain u p0 p1 n0 n1 pl where xs: "xs = u # p0 # p1 # n0 # n1 # pl"
    by (cases xs; simp; rename_tac a as, case_tac as; simp; rename_tac b bs, case_tac bs; simp;
        rename_tac c cs, case_tac cs; simp; rename_tac d ds, case_tac ds; simp)
  show ?thesis
    by (simp add: xs parse_block_def render_block_def del: le_word.simps)
qed

lemma payload_parse [simp]: "5 \<le> length xs \<Longrightarrow> length (b_payload (parse_block xs)) = length xs - 5"
proof -
  assume a: "5 \<le> length xs"
  have "length (render_block (parse_block xs)) = length xs"
    using a by simp
  then show ?thesis by (simp only: length_render_block)
qed

lemma length_concat_blocks:
  "list_all (\<lambda>b. length (b_payload b) = n) blks
    \<Longrightarrow> length (concat (map render_block blks)) = (n + 5) * length blks"
  by (induction blks) simp_all

lemma render_nth:
  assumes "i < length blks"
  shows "render bsz bc blks =
           (le16 bsz @ le16 bc @ concat (map render_block (take i blks)))
           @ render_block (blks ! i) @ concat (map render_block (drop (Suc i) blks))"
proof -
  have "blks = take i blks @ blks ! i # drop (Suc i) blks"
    using assms by (rule id_take_nth_drop)
  then have "concat (map render_block blks)
      = concat (map render_block (take i blks @ blks ! i # drop (Suc i) blks))"
    by simp
  then show ?thesis by (simp add: render_def)
qed

lemma length_render_prefix:
  assumes "list_all (\<lambda>b. length (b_payload b) = n) blks" "i < length blks"
  shows "length (le16 bsz @ le16 bc @ concat (map render_block (take i blks))) = 4 + (n + 5) * i"
proof -
  have "list_all (\<lambda>b. length (b_payload b) = n) (take i blks)"
    using assms(1) by (auto simp: list_all_iff dest: in_set_takeD)
  then have "length (concat (map render_block (take i blks))) = (n + 5) * length (take i blks)"
    by (rule length_concat_blocks)
  then show ?thesis using assms(2) by simp
qed

lemma drop_mid: "r \<le> length mid \<Longrightarrow> drop (length pre + r) (pre @ mid @ post) = drop r mid @ post"
  by simp

lemma take_mid: "r \<le> length mid \<Longrightarrow> take (length pre + r) (pre @ mid @ post) = pre @ take r mid"
  by simp

lemma render_frame:
  assumes ok: "list_all (\<lambda>b. length (b_payload b) = n) blks" and i: "i < length blks"
  obtains pre post where
    "length pre = 4 + (n + 5) * i"
    "render bsz bc blks = pre @ render_block (blks ! i) @ post"
    "\<forall>b. render bsz bc (blks[i := b]) = pre @ render_block b @ post"
proof -
  let ?pre = "le16 bsz @ le16 bc @ concat (map render_block (take i blks))"
  let ?post = "concat (map render_block (drop (Suc i) blks))"
  have 1: "length ?pre = 4 + (n + 5) * i"
    using ok i by (rule length_render_prefix)
  have 2: "render bsz bc blks = ?pre @ render_block (blks ! i) @ ?post"
    using i by (rule render_nth)
  have 3: "render bsz bc (blks[i := b]) = ?pre @ render_block b @ ?post" for b
  proof -
    have i': "i < length (blks[i := b])" using i by simp
    show ?thesis using i by (simp add: render_nth [OF i'])
  qed
  from 3 have "\<forall>b. render bsz bc (blks[i := b]) = ?pre @ render_block b @ ?post" by blast
  with 1 2 show thesis by (rule that)
qed

lemma take_drop_render:
  assumes ok: "list_all (\<lambda>b. length (b_payload b) = n) blks" and i: "i < length blks"
    and k: "r + k \<le> n + 5"
  shows "take k (drop (4 + (n + 5) * i + r) (render bsz bc blks))
           = take k (drop r (render_block (blks ! i)))"
proof -
  obtain pre post where len: "length pre = 4 + (n + 5) * i"
    and r: "render bsz bc blks = pre @ render_block (blks ! i) @ post"
    using ok i by (rule render_frame [where bsz = bsz and bc = bc])
  have lb: "length (render_block (blks ! i)) = n + 5"
    using ok i by (simp add: list_all_length)
  have "drop (length pre + r) (pre @ render_block (blks ! i) @ post)
          = drop r (render_block (blks ! i)) @ post"
    using k lb by (intro drop_mid) simp
  then show ?thesis using k lb by (simp add: r len)
qed

lemma patch_render:
  assumes ok: "list_all (\<lambda>b. length (b_payload b) = n) blks" and i: "i < length blks"
    and k: "r + length data \<le> n + 5"
  shows "take (4 + (n + 5) * i + r) (render bsz bc blks) @ data
           @ drop (4 + (n + 5) * i + r + length data) (render bsz bc blks)
         = render bsz bc (blks[i := parse_block (take r (render_block (blks ! i)) @ data
             @ drop (r + length data) (render_block (blks ! i)))])"
proof -
  let ?rb = "render_block (blks ! i)"
  let ?new = "take r ?rb @ data @ drop (r + length data) ?rb"
  obtain pre post where len: "length pre = 4 + (n + 5) * i"
    and r: "render bsz bc blks = pre @ ?rb @ post"
    and u: "\<forall>b. render bsz bc (blks[i := b]) = pre @ render_block b @ post"
    using ok i by (rule render_frame [where bsz = bsz and bc = bc])
  have lb: "length ?rb = n + 5"
    using ok i by (simp add: list_all_length)
  have ln: "5 \<le> length ?new" using k lb by simp
  have t: "take (length pre + r) (pre @ ?rb @ post) = pre @ take r ?rb"
    using k lb by (intro take_mid) simp
  have d: "drop (length pre + (r + length data)) (pre @ ?rb @ post)
          = drop (r + length data) ?rb @ post"
    using k lb by (intro drop_mid) simp
  have "render bsz bc (blks[i := parse_block ?new]) = pre @ ?new @ post"
    using ln u by simp
  moreover have "take (4 + (n + 5) * i + r) (render bsz bc blks) = pre @ take r ?rb"
    using t by (simp only: r len)
  moreover have "drop (4 + (n + 5) * i + r + length data) (render bsz bc blks)
      = drop (r + length data) ?rb @ post"
    using d by (simp only: r len add.assoc)
  ultimately show ?thesis by simp
qed


lemma disk_state_sel [simp]:
  "disk_exists (disk_state bsz bc blks off ci cp rp cb) = True"
  "disk (disk_state bsz bc blks off ci cp rp cb) = render bsz bc blks"
  "storage_file (disk_state bsz bc blks off ci cp rp cb) = True"
  "file_offset (disk_state bsz bc blks off ci cp rp cb) = off"
  "active_block_size (disk_state bsz bc blks off ci cp rp cb) = bsz"
  "active_block_count (disk_state bsz bc blks off ci cp rp cb) = bc"
  "current_block_index (disk_state bsz bc blks off ci cp rp cb) = ci"
  "current_block_position (disk_state bsz bc blks off ci cp rp cb) = cp"
  "current_region_position (disk_state bsz bc blks off ci cp rp cb) = rp"
  "current_block (disk_state bsz bc blks off ci cp rp cb) = cb"
  by (simp_all add: disk_state_def)

lemma disk_state_upd [simp]:
  "(disk_state bsz bc blks off ci cp rp cb)\<lparr>file_offset := off'\<rparr> = disk_state bsz bc blks off' ci cp rp cb"
  "(disk_state bsz bc blks off ci cp rp cb)\<lparr>current_block_index := ci'\<rparr> = disk_state bsz bc blks off ci' cp rp cb"
  "(disk_state bsz bc blks off ci cp rp cb)\<lparr>current_block_position := cp'\<rparr> = disk_state bsz bc blks off ci cp' rp cb"
  "(disk_state bsz bc blks off ci cp rp cb)\<lparr>current_region_position := rp'\<rparr> = disk_state bsz bc blks off ci cp rp' cb"
  "(disk_state bsz bc blks off ci cp rp cb)\<lparr>current_block := cb'\<rparr> = disk_state bsz bc blks off ci cp rp cb'"
  "(disk_state bsz bc blks off ci cp rp cb)\<lparr>disk := render bsz bc blks'\<rparr> = disk_state bsz bc blks' off ci cp rp cb"
  by (simp_all add: disk_state_def)

lemma storage_initialized_disk_state [simp]:
  "storage_initialized (disk_state bsz bc blks off ci cp rp cb)"
  by (simp add: storage_initialized_def)

lemma blocks_ok_nth: "blocks_ok bsz bc blks \<Longrightarrow> i < unat bc \<Longrightarrow> length (b_payload (blks ! i)) = unat bsz"
  by (simp add: blocks_ok_def list_all_length)

lemma blocks_ok_update:
  "blocks_ok bsz bc blks \<Longrightarrow> length (b_payload b) = unat bsz \<Longrightarrow> blocks_ok bsz bc (blks[i := b])"
  by (cases "i < length blks") (auto simp: blocks_ok_def list_all_length nth_list_update)

text \<open>The position in the file of byte \<open>r\<close> of block \<open>i\<close> (header included).\<close>

definition block_pos :: "16 word \<Rightarrow> nat \<Rightarrow> nat \<Rightarrow> nat" where
  "block_pos bsz i r = 4 + (unat bsz + 5) * i + r"

lemma host_read_block:
  assumes ok: "blocks_ok bsz bc blks" and i: "i < unat bc" and k: "r + k \<le> unat bsz + 5"
  shows "host_read k (disk_state bsz bc blks (block_pos bsz i r) ci cp rp cb)
          = (take k (drop r (render_block (blks ! i))),
             disk_state bsz bc blks (block_pos bsz i (r + k)) ci cp rp cb)"
proof -
  have a: "list_all (\<lambda>b. length (b_payload b) = unat bsz) blks" and l: "i < length blks"
    using ok i by (simp_all add: blocks_ok_def)
  have "length (render_block (blks ! i)) = unat bsz + 5"
    using ok i by (simp add: blocks_ok_nth)
  then have "length (take k (drop r (render_block (blks ! i)))) = k"
    using k by simp
  then show ?thesis
    using take_drop_render [OF a l k, of bsz bc]
    by (simp add: host_read_def block_pos_def Let_def add.assoc)
qed

definition patch_block :: "nat \<Rightarrow> byte list \<Rightarrow> block \<Rightarrow> block" where
  "patch_block r data b =
     parse_block (take r (render_block b) @ data @ drop (r + length data) (render_block b))"

lemma length_patch_block:
  "r + length data \<le> length (b_payload b) + 5
    \<Longrightarrow> length (b_payload (patch_block r data b)) = length (b_payload b)"
  by (simp add: patch_block_def)

lemma host_write_block:
  assumes ok: "blocks_ok bsz bc blks" and i: "i < unat bc" and k: "r + length data \<le> unat bsz + 5"
  shows "host_write data (disk_state bsz bc blks (block_pos bsz i r) ci cp rp cb)
          = disk_state bsz bc (blks[i := patch_block r data (blks ! i)])
              (block_pos bsz i (r + length data)) ci cp rp cb"
proof (cases "data = []")
  case True
  then show ?thesis by (simp add: host_write_def patch_block_def)
next
  case False
  have a: "list_all (\<lambda>b. length (b_payload b) = unat bsz) blks" and l: "i < length blks"
    using ok i by (simp_all add: blocks_ok_def)
  have lb: "length (render_block (blks ! i)) = unat bsz + 5"
    using ok i by (simp add: blocks_ok_nth)
  have lr: "length (render bsz bc blks) \<ge> block_pos bsz i r"
  proof -
    obtain pre post where "length pre = 4 + (unat bsz + 5) * i"
      and "render bsz bc blks = pre @ render_block (blks ! i) @ post"
      using a l by (rule render_frame [where bsz = bsz and bc = bc])
    then show ?thesis using lb k by (simp add: block_pos_def)
  qed
  show ?thesis
    using False lr patch_render [OF a l k, of bsz bc]
    by (simp add: host_write_def block_pos_def patch_block_def add.assoc)
qed

lemma host_lseek_set_state [simp]:
  "host_lseek_set (int m) (disk_state bsz bc blks off ci cp rp cb) = disk_state bsz bc blks m ci cp rp cb"
  by (simp add: host_lseek_set_def)

lemma to_int_small: "0 \<le> x \<Longrightarrow> x < 2147483648 \<Longrightarrow> to_int x = x"
  by (simp add: to_int_def)

lemma to_int_nat [simp]: "k < 2147483648 \<Longrightarrow> to_int (int k) = int k"
  by (simp add: to_int_small)

lemma host_lseek_cur_state:
  "0 \<le> int off + d \<Longrightarrow> host_lseek_cur d (disk_state bsz bc blks off ci cp rp cb)
     = disk_state bsz bc blks (nat (int off + d)) ci cp rp cb"
  by (simp add: host_lseek_cur_def)

lemma store16_le16 [simp]: "store16 old (le16 w) = w"
  by (simp add: store16_def del: le_word.simps)

lemma jump_to_block_state:
  assumes ok: "blocks_ok bsz bc blks" and b: "b < bc"
  shows "jump_to_block b (disk_state bsz bc blks off ci cp rp cb)
          = disk_state bsz bc blks (block_pos bsz (unat b) 5) b 0 rp (header_info (blks ! unat b))"
proof -
  have i: "unat b < unat bc" using b by (simp add: word_less_nat_alt)
  have "(unat bsz + 5) * unat b \<le> (unat bsz + 5) * unat bc"
    using i by (intro mult_le_mono2) simp
  then have small: "block_pos bsz (unat b) 0 < 2147483648"
    using ok unfolding blocks_ok_def block_pos_def by linarith
  have "int FIRST_BLOCK_POSITION + (uint bsz + int BLOCK_HEADER_SIZE) * uint b
      = int (block_pos bsz (unat b) 0)"
    by (simp add: FIRST_BLOCK_POSITION_def BLOCK_HEADER_SIZE_def block_pos_def)
  then have p: "to_int (int FIRST_BLOCK_POSITION + (uint bsz + int BLOCK_HEADER_SIZE) * uint b)
      = int (block_pos bsz (unat b) 0)"
    using small by simp
  let ?rb = "render_block (blks ! unat b)"
  have "host_read 1 (disk_state bsz bc blks (block_pos bsz (unat b) 0) ci cp rp cb)
      = (take 1 (drop 0 ?rb), disk_state bsz bc blks (block_pos bsz (unat b) (0 + 1)) ci cp rp cb)"
    by (rule host_read_block [OF ok i]) simp
  moreover have "take 1 (drop 0 ?rb) = [b_use (blks ! unat b)]"
    by (simp add: render_block_def)
  ultimately have r1: "host_read 1 (disk_state bsz bc blks (block_pos bsz (unat b) 0) ci cp rp cb)
      = ([b_use (blks ! unat b)], disk_state bsz bc blks (block_pos bsz (unat b) 1) ci cp rp cb)"
    by simp
  have "host_read 2 (disk_state bsz bc blks (block_pos bsz (unat b) 1) ci cp rp cb)
      = (take 2 (drop 1 ?rb), disk_state bsz bc blks (block_pos bsz (unat b) (1 + 2)) ci cp rp cb)"
    by (rule host_read_block [OF ok i]) simp
  moreover have "take 2 (drop 1 ?rb) = le16 (b_prev (blks ! unat b))"
    by (simp add: render_block_def le16_def)
  ultimately have r2: "host_read 2 (disk_state bsz bc blks (block_pos bsz (unat b) 1) ci cp rp cb)
      = (le16 (b_prev (blks ! unat b)), disk_state bsz bc blks (block_pos bsz (unat b) 3) ci cp rp cb)"
    by (simp add: numeral_3_eq_3)
  have "host_read 2 (disk_state bsz bc blks (block_pos bsz (unat b) 3) ci cp rp cb)
      = (take 2 (drop 3 ?rb), disk_state bsz bc blks (block_pos bsz (unat b) (3 + 2)) ci cp rp cb)"
    by (rule host_read_block [OF ok i]) simp
  moreover have "take 2 (drop 3 ?rb) = le16 (b_next (blks ! unat b))"
    by (simp add: render_block_def le16_def)
  ultimately have r3: "host_read 2 (disk_state bsz bc blks (block_pos bsz (unat b) 3) ci cp rp cb)
      = (le16 (b_next (blks ! unat b)), disk_state bsz bc blks (block_pos bsz (unat b) 5) ci cp rp cb)"
    by simp
  show ?thesis using b
    by (simp add: jump_to_block_def p read_block_header_def r1 r2 r3 header_info_def
        linorder_not_le [symmetric] del: One_nat_def)
qed


lemma block_pos_div_mod:
  assumes "4 \<le> off"
  shows "off = block_pos bsz ((off - 4) div (unat bsz + 5)) ((off - 4) mod (unat bsz + 5))"
  using assms by (simp add: block_pos_def)

lemma host_read_at:
  assumes "blocks_ok bsz bc blks" "4 \<le> off" "(off - 4) div (unat bsz + 5) < unat bc"
    "(off - 4) mod (unat bsz + 5) + k \<le> unat bsz + 5"
  shows "host_read k (disk_state bsz bc blks off ci cp rp cb)
          = (take k (drop ((off - 4) mod (unat bsz + 5))
                      (render_block (blks ! ((off - 4) div (unat bsz + 5))))),
             disk_state bsz bc blks (off + k) ci cp rp cb)"
proof -
  let ?i = "(off - 4) div (unat bsz + 5)" and ?r = "(off - 4) mod (unat bsz + 5)"
  have o: "off = block_pos bsz ?i ?r" using assms(2) by (rule block_pos_div_mod)
  have "host_read k (disk_state bsz bc blks (block_pos bsz ?i ?r) ci cp rp cb)
      = (take k (drop ?r (render_block (blks ! ?i))),
         disk_state bsz bc blks (block_pos bsz ?i (?r + k)) ci cp rp cb)"
    using assms(1,3,4) by (rule host_read_block)
  moreover have "block_pos bsz ?i (?r + k) = off + k"
    using assms(2) by (simp add: block_pos_def)
  ultimately show ?thesis using o by simp
qed

lemma host_write_at:
  assumes "blocks_ok bsz bc blks" "4 \<le> off" "(off - 4) div (unat bsz + 5) < unat bc"
    "(off - 4) mod (unat bsz + 5) + length data \<le> unat bsz + 5"
  shows "host_write data (disk_state bsz bc blks off ci cp rp cb)
          = disk_state bsz bc
              (blks[(off - 4) div (unat bsz + 5) :=
                 patch_block ((off - 4) mod (unat bsz + 5)) data
                   (blks ! ((off - 4) div (unat bsz + 5)))])
              (off + length data) ci cp rp cb"
proof -
  let ?i = "(off - 4) div (unat bsz + 5)" and ?r = "(off - 4) mod (unat bsz + 5)"
  have o: "off = block_pos bsz ?i ?r" using assms(2) by (rule block_pos_div_mod)
  have "host_write data (disk_state bsz bc blks (block_pos bsz ?i ?r) ci cp rp cb)
      = disk_state bsz bc (blks[?i := patch_block ?r data (blks ! ?i)])
          (block_pos bsz ?i (?r + length data)) ci cp rp cb"
    using assms(1,3,4) by (rule host_write_block)
  moreover have "block_pos bsz ?i (?r + length data) = off + length data"
    using assms(2) by (simp add: block_pos_def)
  ultimately show ?thesis using o by simp
qed

lemma list_all_replicate [simp]: "list_all P (replicate n x) = (n = 0 \<or> P x)"
  by (induction n) auto

lemma update_Cons_numeral [simp]: "(x # xs)[numeral k := v] = x # xs[pred_numeral k := v]"
  by (simp add: numeral_eq_Suc)

lemma update_replicate: "i < n \<Longrightarrow> (replicate n x)[i := v] = replicate i x @ v # replicate (n - Suc i) x"
  by (induction n arbitrary: i) (auto simp: less_Suc_eq_0_disj replicate_app_Cons_same split: nat.splits)

lemma fresh_state:
  "storage_initialize (initial_storage None)
     = (0, disk_state 10 128 (Block 1 65535 65535 (replicate 10 0) # replicate 127 (Block 0 65535 65535 (replicate 10 0))) 4 0 0 0
        \<lparr>in_use = 0, previous_block = 0, next_block = 0\<rparr>)"
  by (simp add: storage_initialize_def initial_storage_def storage_initialized_def
      create_storage_file_def DEFAULT_BLOCK_SIZE_def DEFAULT_BLOCK_COUNT_def host_read_def
      Let_def disk_state_def render_def render_block_def map_replicate_const
      INVALID_BLOCK_def INVALID_REGION_def BLOCK_IN_USE_INDICATOR_def BLOCK_NOT_IN_USE_INDICATOR_def
      store16_def le16_def)

lemma initial_not_initialized [simp]: "\<not> storage_initialized (initial_storage host)"
  by (simp add: storage_initialized_def initial_storage_def)

lemma unat_minus_one_64 [simp]: "unat (- 1 :: 64 word) = 18446744073709551615"
  by (simp add: unsigned_minus_1_eq_mask mask_eq_exp_minus_1)

lemma existing_state:
  "storage_initialize (initial_storage (Some (render bsz bc blks)))
     = (0, disk_state bsz bc blks 4 0 0 0 \<lparr>in_use = 0, previous_block = 0, next_block = 0\<rparr>)"
  by (simp add: storage_initialize_def initial_storage_def storage_initialized_def host_read_def
      Let_def disk_state_def render_def)

lemmas consts_defs = INVALID_REGION_def INVALID_BLOCK_def BLOCK_NOT_IN_USE_INDICATOR_def BLOCK_IN_USE_INDICATOR_def
  BLOCK_HEADER_SIZE_def FIRST_BLOCK_POSITION_def DEFAULT_BLOCK_SIZE_def DEFAULT_BLOCK_COUNT_def
  MAX_DESCRIPTORS_def NULL_ENTRY_def UNUSED_ENTRY_def FILE_ENTRY_def DIRECTORY_ENTRY_def
  O_CREAT_def O_EXCL_def O_TRUNC_def O_APPEND_def SEEK_SET_def SEEK_CUR_def SEEK_END_def
  root_directory_region_def slash_def

lemmas enc_defs = le16_def le64_def store16_def load8_def load16_def load64_def

lemmas engine_defs = allocate_block_def
  storage_allocate_region_def storage_free_region_def storage_jump_to_region_def storage_read_in_region_def
  storage_write_in_region_def storage_seek_in_region_def

lemmas fs_defs = invalid_file_def c_str_def strcmp_eq_def read_name_def navigate_to_virtual_directory_def
  find_virtual_file_def write_entry_def path_length_def create_virtual_file_def invalidate_last_descriptor_def
  update_virtual_file_metadata_def jump_to_file_if_needed_def valid_descriptor_def open_virtual_def
  close_virtual_def mkdir_virtual_def rmdir_virtual_def unlink_virtual_def read_virtual_def write_virtual_def
  seek_virtual_def initial_fs_def

lemmas fuel_numerals =
  free_blocks_from.simps(2) [of "pred_numeral k" for k, folded numeral_eq_Suc]
  read_loop.simps(2) [of "pred_numeral k" for k, folded numeral_eq_Suc]
  write_loop.simps(2) [of "pred_numeral k" for k, folded numeral_eq_Suc]
  seek_forward_loop.simps(2) [of "pred_numeral k" for k, folded numeral_eq_Suc]
  seek_backward_loop.simps(2) [of "pred_numeral k" for k, folded numeral_eq_Suc]
  find_directory.simps(2) [of "pred_numeral k" for k, folded numeral_eq_Suc]
  find_file_entry.simps(2) [of "pred_numeral k" for k, folded numeral_eq_Suc]
  find_free_entry.simps(2) [of "pred_numeral k" for k, folded numeral_eq_Suc]
  directory_is_empty.simps(2) [of "pred_numeral k" for k, folded numeral_eq_Suc]
  remove_directory_entry.simps(2) [of "pred_numeral k" for k, folded numeral_eq_Suc]
  remove_file_entry.simps(2) [of "pred_numeral k" for k, folded numeral_eq_Suc]
  first_free_slot.simps(2) [of _ _ "pred_numeral k" for k, folded numeral_eq_Suc]

lemmas eval_simps = consts_defs enc_defs engine_defs fs_defs fuel_numerals Let_def to_int_def not_set_iff
  allocate_block_from.simps jump_to_block_state host_read_at host_write_at host_lseek_cur_state
  blocks_ok_def block_pos_def patch_block_def parse_block_def render_block_def header_info_def
  update_replicate word_le_nat_alt word_less_nat_alt

section \<open>Seek (claim C7)\<close>

text \<open>
  The position the specification asks for: \<open>base + offset\<close>, clamped to the interval from 0
  to the length, over the integers. \<open>seek_base\<close> is the base that \<open>whence\<close> selects.
\<close>

definition spec_seek_position :: "int \<Rightarrow> int \<Rightarrow> int \<Rightarrow> int" where
  "spec_seek_position base offset len = min len (max 0 (base + offset))"

definition seek_base :: "int \<Rightarrow> virtual_file \<Rightarrow> int" where
  "seek_base whence file =
     (if whence = SEEK_SET then 0
      else if whence = SEEK_CUR then uint (reader_position file)
      else uint (file_length file))"

lemma sint_add_mixed:
  fixes a b :: "64 word"
  assumes "uint a + sint b < 2 ^ 63"
  shows "sint (a + b) = uint a + sint b"
proof -
  have "a + b = word_of_int (uint a) + word_of_int (sint b)"
    by simp
  also have "\<dots> = word_of_int (uint a + sint b)"
    by simp
  finally have "sint (a + b) = signed_take_bit (LENGTH(64) - 1) (uint a + sint b)"
    by (simp only: sint_sbintrunc')
  moreover have "- (2 ^ 63) \<le> uint a + sint b"
  proof -
    have "- (2 ^ 63) \<le> sint b" using sint_ge [of b] by simp
    moreover have "0 \<le> uint a" by simp
    ultimately show ?thesis by linarith
  qed
  ultimately show ?thesis
    using assms by (simp add: signed_take_bit_int_eq_self)
qed

lemma uint_of_nonneg_sint:
  fixes w :: "64 word"
  assumes "0 \<le> sint w"
  shows "uint w = sint w"
proof -
  have "sint w < 2 ^ 64" using sint_lt [of w] by simp
  then have "take_bit LENGTH(64) (sint w) = sint w"
    using assms by (simp add: take_bit_int_eq_self)
  then show ?thesis by (simp only: uint_sint)
qed

lemma seek_new_position:
  fixes a b len :: "64 word"
  assumes "uint a + sint b < 2 ^ 63"
  shows "(if sint (a + b) < 0 then 0 else if a + b > len then len else a + b)
          = word_of_int (spec_seek_position (uint a) (sint b) (uint len))"
proof -
  have s: "sint (a + b) = uint a + sint b" using assms by (rule sint_add_mixed)
  show ?thesis
  proof (cases "uint a + sint b < 0")
    case True
    then show ?thesis using s uint_ge_0 [of len] by (simp add: spec_seek_position_def)
  next
    case False
    then have u: "uint (a + b) = uint a + sint b"
      using s uint_of_nonneg_sint [of "a + b"] by simp
    show ?thesis
    proof (cases "a + b > len")
      case True
      then have "uint len < uint a + sint b" using u by (simp add: word_less_def)
      then show ?thesis using s False True by (simp add: spec_seek_position_def)
    next
      case g: False
      then have "uint a + sint b \<le> uint len" using u by (simp add: word_less_def)
      moreover have "word_of_int (uint a + sint b) = a + b"
        using u [symmetric] by simp
      ultimately show ?thesis using s False g by (simp add: spec_seek_position_def)
    qed
  qed
qed

definition seek_example :: fs_state where
  "seek_example =
     \<lparr>descriptors = (\<lambda>_. None)(0 \<mapsto> \<lparr>content_region = 1, metadata_region = 2,
                                          file_length = 10, reader_position = 5\<rparr>),
      last_used_descriptor = - 1,
      engine = initial_storage None\<rparr>"

text \<open>
  C7 (amended). For a valid open descriptor and \<open>whence\<close> one of SET, CUR, END, where
  \<open>base + offset\<close> does not exceed the largest \<open>off_t\<close> value \<open>2^63 - 1\<close>: \<open>seek_virtual\<close>
  returns \<open>base + offset\<close> clamped to \<open>[0, length]\<close>, and the new state differs from the old
  one in the cursor of that descriptor only (the engine is untouched).
\<close>

theorem seek_virtual_position:
  assumes "valid_descriptor f fd" and "descriptors f (nat fd) = Some file"
    and "whence = SEEK_SET \<or> whence = SEEK_CUR \<or> whence = SEEK_END"
    and "seek_base whence file + sint offset < 2 ^ 63"
  shows "seek_virtual fd offset whence f =
           (word_of_int (spec_seek_position (seek_base whence file) (sint offset)
                           (uint (file_length file))),
            f\<lparr>descriptors := (descriptors f)(nat fd \<mapsto>
                 file\<lparr>reader_position :=
                   word_of_int (spec_seek_position (seek_base whence file) (sint offset)
                                  (uint (file_length file)))\<rparr>)\<rparr>)"
proof -
  let ?len = "file_length file" and ?pos = "reader_position file"
  let ?new = "word_of_int (spec_seek_position (seek_base whence file) (sint offset) (uint ?len))
                :: 64 word"
  have clamp: "(if sint (a + offset) < 0 then 0 else if a + offset > ?len then ?len else a + offset)
      = ?new" if "uint a = seek_base whence file" for a :: "64 word"
    using seek_new_position [of a offset ?len] assms(4) that by simp
  from assms(3) consider (to_set) "whence = SEEK_SET" | (to_cur) "whence = SEEK_CUR"
    | (to_end) "whence = SEEK_END" by blast
  then show ?thesis
  proof cases
    case to_set
    then show ?thesis
      using assms(1,2) clamp [of 0]
      by (simp add: seek_virtual_def Let_def seek_base_def SEEK_SET_def SEEK_CUR_def SEEK_END_def
          split del: if_split cong: if_cong)
  next
    case to_cur
    then show ?thesis
      using assms(1,2) clamp [of ?pos]
      by (simp add: seek_virtual_def Let_def seek_base_def SEEK_SET_def SEEK_CUR_def SEEK_END_def
          split del: if_split cong: if_cong)
  next
    case to_end
    then show ?thesis
      using assms(1,2) clamp [of ?len]
      by (simp add: seek_virtual_def Let_def seek_base_def SEEK_SET_def SEEK_CUR_def SEEK_END_def
          split del: if_split cong: if_cong)
  qed
qed

theorem seek_virtual_position_witness:
  "valid_descriptor seek_example 0
    \<and> descriptors seek_example (nat 0) = Some \<lparr>content_region = 1, metadata_region = 2,
          file_length = 10, reader_position = 5\<rparr>
    \<and> seek_base SEEK_END \<lparr>content_region = 1, metadata_region = 2,
          file_length = 10, reader_position = 5\<rparr> + sint (- 2 :: 64 word) < 2 ^ 63
    \<and> seek_virtual 0 (- 2) SEEK_END seek_example =
          (8, seek_example\<lparr>descriptors := (descriptors seek_example)(nat 0 \<mapsto>
                \<lparr>content_region = 1, metadata_region = 2,
                 file_length = 10, reader_position = 8\<rparr>)\<rparr>)"
proof -
  let ?file = "\<lparr>content_region = 1, metadata_region = 2,
                file_length = 10, reader_position = 5 :: 64 word\<rparr>"
  have v: "valid_descriptor seek_example 0"
    by (simp add: valid_descriptor_def seek_example_def MAX_DESCRIPTORS_def)
  have d: "descriptors seek_example (nat 0) = Some ?file"
    by (simp add: seek_example_def)
  have w: "SEEK_END = SEEK_SET \<or> SEEK_END = SEEK_CUR \<or> SEEK_END = SEEK_END"
    by simp
  have b: "seek_base SEEK_END ?file + sint (- 2 :: 64 word) < 2 ^ 63"
    by (simp add: seek_base_def SEEK_SET_def SEEK_CUR_def SEEK_END_def)
  have "spec_seek_position (seek_base SEEK_END ?file) (sint (- 2 :: 64 word))
          (uint (file_length ?file)) = 8"
    by (simp add: spec_seek_position_def seek_base_def SEEK_SET_def SEEK_CUR_def SEEK_END_def)
  then show ?thesis
    using v d b seek_virtual_position [OF v d w b] by simp
qed

text \<open>
  C7 as stated fails where \<open>base + offset\<close> leaves the range of \<open>off_t\<close>: with the cursor at
  5 in a file of length 10, a seek by \<open>2^63 - 1\<close> from the current position wraps to a
  negative position and returns 0, where the clamped sum is 10.
\<close>

theorem seek_virtual_overflow_counterexample:
  "valid_descriptor seek_example 0
    \<and> descriptors seek_example (nat 0) = Some \<lparr>content_region = 1, metadata_region = 2,
          file_length = 10, reader_position = 5\<rparr>
    \<and> fst (seek_virtual 0 9223372036854775807 SEEK_CUR seek_example) = 0
    \<and> spec_seek_position (seek_base SEEK_CUR \<lparr>content_region = 1, metadata_region = 2,
          file_length = 10, reader_position = 5\<rparr>) (sint (9223372036854775807 :: 64 word))
          (uint (10 :: 64 word)) = 10"
  by (simp add: valid_descriptor_def seek_example_def MAX_DESCRIPTORS_def seek_virtual_def
      Let_def SEEK_SET_def SEEK_CUR_def SEEK_END_def spec_seek_position_def seek_base_def)

section \<open>A failing open leaves the descriptor table alone (claim C10)\<close>

text \<open>
  C10. Whenever \<open>open_virtual\<close> returns \<open>- 1\<close> (the path does not resolve and CREATE is
  absent, EXCLUSIVE rejects an existing file, the descriptor table is full, or the creation
  fails), the descriptor table is the one before the call: no slot is taken.
\<close>

theorem open_virtual_failure_keeps_descriptors:
  assumes "open_virtual fuel path flags f = Some (- 1, f')"
  shows "descriptors f' = descriptors f"
  using assms
  by (auto simp: open_virtual_def Let_def invalidate_last_descriptor_def
      split: if_splits option.splits prod.splits Option.bind_splits)

text \<open>The witness: opening the file \<open>x\<close>, which does not exist, without CREATE.\<close>

theorem open_virtual_failure_keeps_descriptors_witness:
  "open_virtual 20 [120] 0 (initial_fs None) =
     Some (- 1,
       \<lparr>descriptors = \<lambda>_. None, last_used_descriptor = - 1,
        engine =
          disk_state 10 128
            (Block 1 65535 65535 (replicate 10 0) #
             replicate 127 (Block 0 65535 65535 (replicate 10 0)))
            10 0 1 1 \<lparr>in_use = 1, previous_block = 65535, next_block = 65535\<rparr>\<rparr>)
   \<and> descriptors
        \<lparr>descriptors = \<lambda>_. None, last_used_descriptor = - 1,
         engine =
           disk_state 10 128
             (Block 1 65535 65535 (replicate 10 0) #
              replicate 127 (Block 0 65535 65535 (replicate 10 0)))
             10 0 1 1 \<lparr>in_use = 1, previous_block = 65535, next_block = 65535\<rparr>\<rparr>
       = descriptors (initial_fs None)"
proof -
  have e: "open_virtual 20 [120] 0 (initial_fs None) =
     Some (- 1,
       \<lparr>descriptors = \<lambda>_. None, last_used_descriptor = - 1,
        engine =
          disk_state 10 128
            (Block 1 65535 65535 (replicate 10 0) #
             replicate 127 (Block 0 65535 65535 (replicate 10 0)))
            10 0 1 1 \<lparr>in_use = 1, previous_block = 65535, next_block = 65535\<rparr>\<rparr>)"
    by (simp add: eval_simps fresh_state)
  show ?thesis
    using e open_virtual_failure_keeps_descriptors [OF e] by simp
qed

section \<open>Open with EXCLUSIVE (claim C6)\<close>

text \<open>
  The state of the program after \<open>open("a", O_CREAT)\<close> on a fresh backing file and the
  \<open>close\<close> of the descriptor: the root directory (block 0) holds the entry of the file, with
  the content region 1 and the metadata region 2.
\<close>

definition existing_file_state :: fs_state where
  "existing_file_state =
     \<lparr>descriptors = \<lambda>_. None, last_used_descriptor = - 1,
      engine =
        disk_state 10 128
          (Block 1 65535 65535 (2 # 2 # 0 # 1 # 0 # replicate 5 0) #
           Block 1 65535 65535 (replicate 10 0) #
           Block 1 65535 3 [0, 0, 0, 0, 0, 0, 0, 0, 1, 97] #
           Block 1 2 65535 (replicate 10 0) #
           replicate 124 (Block 0 65535 65535 (replicate 10 0)))
          54 3 0 10 \<lparr>in_use = 1, previous_block = 2, next_block = 65535\<rparr>\<rparr>"

lemma existing_file_state_reached:
  "do { (fd, f) \<leftarrow> open_virtual 20 [97] O_CREAT (initial_fs None); Some (fd, close_virtual fd f) }
     = Some (0, existing_file_state)"
  by (simp add: existing_file_state_def eval_simps fresh_state)

lemma find_existing_file:
  "find_virtual_file 20 [97] (engine existing_file_state) =
     Some (\<lparr>content_region = 1, metadata_region = 2, file_length = 0, reader_position = 0\<rparr>,
           engine existing_file_state)"
  by (simp add: existing_file_state_def eval_simps)

lemma find_missing_file:
  "find_virtual_file 20 [97] (snd (storage_initialize (engine (initial_fs None))))
     = Some (\<lparr>content_region = 65535, metadata_region = 65535, file_length = 0,
               reader_position = 0\<rparr>,
             disk_state 10 128
               (Block 1 65535 65535 (replicate 10 0) #
                replicate 127 (Block 0 65535 65535 (replicate 10 0)))
               10 0 1 1 \<lparr>in_use = 1, previous_block = 65535, next_block = 65535\<rparr>)"
  by (simp add: eval_simps fresh_state initial_fs_def)

lemma open_create_fresh:
  "open_virtual 20 [97] O_CREAT (initial_fs None)
     = Some (0, existing_file_state
          \<lparr>descriptors := (\<lambda>_. None)(0 \<mapsto> \<lparr>content_region = 1, metadata_region = 2,
                                              file_length = 0, reader_position = 0\<rparr>)\<rparr>)"
  by (simp add: existing_file_state_def eval_simps fresh_state)

text \<open>
  Without the bit of \<open>O_EXCL\<close> the flags test as before for \<open>O_CREAT\<close>, \<open>O_TRUNC\<close> and
  \<open>O_APPEND\<close>, the other flags that \<open>open_virtual\<close> looks at.
\<close>

lemma drop_excl:
  "(flags AND NOT O_EXCL) AND O_CREAT = flags AND O_CREAT"
  "(flags AND NOT O_EXCL) AND O_TRUNC = flags AND O_TRUNC"
  "(flags AND NOT O_EXCL) AND O_APPEND = flags AND O_APPEND"
  by (simp_all add: O_EXCL_def O_CREAT_def O_TRUNC_def O_APPEND_def and.assoc)

text \<open>
  C6 (amended). EXCLUSIVE is not ignored when CREATE is absent; it acts on its own, and
  only on a file that exists. For every call of \<open>open_virtual\<close> with the EXCLUSIVE flag set,
  \<open>file\<close> being what \<open>find_virtual_file\<close> reports for the path (on the storage engine as the
  call finds it, or as \<open>storage_initialize\<close> leaves it when the call is the first to use
  the engine):
  \<^item> if the file exists, the call returns \<open>- 1\<close> and leaves the descriptor table as it was,
    with CREATE or without it;
  \<^item> if the file does not exist, the call does what the same call without EXCLUSIVE does:
    the state and the result are the same. So CREATE with EXCLUSIVE on a missing file
    still creates the file and returns its descriptor.
\<close>

theorem open_virtual_exclusive:
  assumes "flags AND O_EXCL \<noteq> 0"
    and "find_virtual_file fuel path
           (if storage_initialized (engine f) then engine f
            else snd (storage_initialize (engine f))) = Some (file, s)"
  shows "(content_region file \<noteq> INVALID_REGION \<longrightarrow>
            (\<exists>f'. open_virtual fuel path flags f = Some (- 1, f')
                  \<and> descriptors f' = descriptors f))
       \<and> (content_region file = INVALID_REGION \<longrightarrow>
            open_virtual fuel path flags f = open_virtual fuel path (flags AND NOT O_EXCL) f)"
proof (intro conjI impI)
  assume "content_region file \<noteq> INVALID_REGION"
  then show "\<exists>f'. open_virtual fuel path flags f = Some (- 1, f')
      \<and> descriptors f' = descriptors f"
    using assms by (auto simp: open_virtual_def Let_def invalidate_last_descriptor_def)
next
  assume "content_region file = INVALID_REGION"
  then show "open_virtual fuel path flags f = open_virtual fuel path (flags AND NOT O_EXCL) f"
    unfolding open_virtual_def drop_excl using assms(2)
    by (cases "storage_initialized (engine f)")
      (simp_all add: Let_def invalidate_last_descriptor_def)
qed

text \<open>
  The witness: \<open>open("a", O_EXCL)\<close> where the file exists, and \<open>open("a", O_CREAT | O_EXCL)\<close>
  as the first call on a fresh backing file, which creates the file and returns the
  descriptor 0.
\<close>

theorem open_virtual_exclusive_witness:
  "O_EXCL AND O_EXCL \<noteq> 0
   \<and> find_virtual_file 20 [97] (engine existing_file_state) =
        Some (\<lparr>content_region = 1, metadata_region = 2, file_length = 0, reader_position = 0\<rparr>,
              engine existing_file_state)
   \<and> (\<exists>f'. open_virtual 20 [97] O_EXCL existing_file_state = Some (- 1, f')
           \<and> descriptors f' = descriptors existing_file_state)
   \<and> (O_CREAT OR O_EXCL) AND O_EXCL \<noteq> 0
   \<and> \<not> storage_initialized (engine (initial_fs None))
   \<and> (\<exists>s. find_virtual_file 20 [97] (snd (storage_initialize (engine (initial_fs None)))) =
        Some (\<lparr>content_region = INVALID_REGION, metadata_region = INVALID_REGION,
                file_length = 0, reader_position = 0\<rparr>, s))
   \<and> open_virtual 20 [97] (O_CREAT OR O_EXCL) (initial_fs None)
       = Some (0, existing_file_state
            \<lparr>descriptors := (\<lambda>_. None)(0 \<mapsto> \<lparr>content_region = 1, metadata_region = 2,
                                                file_length = 0, reader_position = 0\<rparr>)\<rparr>)"
proof -
  have i: "storage_initialized (engine existing_file_state)"
    by (simp add: existing_file_state_def)
  have x: "O_EXCL AND O_EXCL \<noteq> 0"
    by (simp add: O_EXCL_def)
  have fe: "find_virtual_file 20 [97]
      (if storage_initialized (engine existing_file_state) then engine existing_file_state
       else snd (storage_initialize (engine existing_file_state))) =
      Some (\<lparr>content_region = 1, metadata_region = 2, file_length = 0, reader_position = 0\<rparr>,
            engine existing_file_state)"
    using i find_existing_file by simp
  have y: "(O_CREAT OR O_EXCL) AND O_EXCL \<noteq> 0"
    by (simp add: O_EXCL_def O_CREAT_def)
  have z: "(O_CREAT OR O_EXCL) AND NOT O_EXCL = O_CREAT"
    by (simp add: O_EXCL_def O_CREAT_def)
  have n: "\<not> storage_initialized (engine (initial_fs None))"
    by (simp add: initial_fs_def initial_storage_def storage_initialized_def)
  have fm: "find_virtual_file 20 [97]
      (if storage_initialized (engine (initial_fs None)) then engine (initial_fs None)
       else snd (storage_initialize (engine (initial_fs None)))) =
      Some (\<lparr>content_region = 65535, metadata_region = 65535, file_length = 0,
              reader_position = 0\<rparr>,
            disk_state 10 128
              (Block 1 65535 65535 (replicate 10 0) #
               replicate 127 (Block 0 65535 65535 (replicate 10 0)))
              10 0 1 1 \<lparr>in_use = 1, previous_block = 65535, next_block = 65535\<rparr>)"
    using n find_missing_file by simp
  show ?thesis
    using x find_existing_file y n find_missing_file
      open_virtual_exclusive [OF x fe] open_virtual_exclusive [OF y fm]
    by (simp add: z open_create_fresh INVALID_REGION_def)
qed

text \<open>
  C6 as stated fails: with CREATE absent, EXCLUSIVE set and the file present, the call
  returns \<open>- 1\<close> where the claim promises a descriptor.
\<close>

theorem open_virtual_exclusive_counterexample:
  "O_EXCL AND O_CREAT = 0
   \<and> find_virtual_file 20 [97] (engine existing_file_state) =
        Some (\<lparr>content_region = 1, metadata_region = 2, file_length = 0, reader_position = 0\<rparr>,
              engine existing_file_state)
   \<and> open_virtual 20 [97] O_EXCL existing_file_state = Some (- 1, existing_file_state)"
proof -
  have "O_EXCL AND O_CREAT = 0"
    by (simp add: O_EXCL_def O_CREAT_def)
  moreover have "open_virtual 20 [97] O_EXCL existing_file_state = Some (- 1, existing_file_state)"
    by (simp add: existing_file_state_def eval_simps)
  ultimately show ?thesis
    using find_existing_file by simp
qed

section \<open>Open with TRUNCATE and with APPEND (claims C2 and C5)\<close>

text \<open>
  C2 on the code. The calls \<open>mkdir("d")\<close>, \<open>open("a", O_CREAT)\<close>, \<open>write(fd, "hello", 5)\<close>,
  \<open>close(fd)\<close>, \<open>rmdir("d")\<close> and \<open>open("a", O_TRUNC)\<close> on a fresh backing file. The last
  call returns the descriptor 0; the descriptor table holds for it the content region 3,
  which the call has freed (block 3 is not in use), and the length 6; the region allocated
  afresh is block 1; the length in the metadata region (block 4) is still 6.
\<close>

definition truncate_scenario :: "(int \<times> fs_state) option" where
  "truncate_scenario =
     do {
       (_, f1) \<leftarrow> mkdir_virtual 20 [100] (initial_fs None);
       (fd, f2) \<leftarrow> open_virtual 20 [97] O_CREAT f1;
       (_, f3) \<leftarrow> write_virtual 20 fd [104, 101, 108, 108, 111] 5 f2;
       (_, f4) \<leftarrow> rmdir_virtual 20 [100] (close_virtual fd f3);
       open_virtual 20 [97] O_TRUNC f4
     }"

theorem open_virtual_truncate_scenario:
  "truncate_scenario =
     Some (0,
       \<lparr>descriptors =
          (\<lambda>_. None)(0 \<mapsto> \<lparr>content_region = 3, metadata_region = 4, file_length = 6,
                               reader_position = 0\<rparr>),
        last_used_descriptor = - 1,
        engine =
          disk_state 10 128
            (Block 1 65535 5 [1, 2, 0, 1, 0, 2, 4, 0, 3, 0] #
             Block 1 65535 65535 (replicate 10 0) #
             Block 0 65535 65535 (1 # 100 # replicate 8 0) #
             Block 0 65535 65535 (104 # 101 # 108 # 108 # 111 # replicate 5 0) #
             Block 1 65535 6 [6, 0, 0, 0, 0, 0, 0, 0, 1, 97] #
             Block 1 0 65535 (replicate 10 0) #
             Block 1 4 65535 (replicate 10 0) #
             replicate 121 (Block 0 65535 65535 (replicate 10 0)))
            24 1 0 10 \<lparr>in_use = 0, previous_block = 65535, next_block = 65535\<rparr>\<rparr>)"
  by (simp add: truncate_scenario_def eval_simps fresh_state)

text \<open>
  C5 on the code. The calls \<open>open("a", O_CREAT)\<close>, \<open>write(fd, "hello", 5)\<close>, \<open>close(fd)\<close> and
  \<open>open("a", O_APPEND)\<close> on a fresh backing file: the descriptor that the last call returns
  has the length 6 and the cursor 0.
\<close>

definition append_scenario :: "(int \<times> fs_state) option" where
  "append_scenario =
     do {
       (fd, f1) \<leftarrow> open_virtual 20 [97] O_CREAT (initial_fs None);
       (_, f2) \<leftarrow> write_virtual 20 fd [104, 101, 108, 108, 111] 5 f1;
       open_virtual 20 [97] O_APPEND (close_virtual fd f2)
     }"

theorem open_virtual_append_scenario:
  "append_scenario =
     Some (0,
       \<lparr>descriptors =
          (\<lambda>_. None)(0 \<mapsto> \<lparr>content_region = 1, metadata_region = 2, file_length = 6,
                               reader_position = 0\<rparr>),
        last_used_descriptor = - 1,
        engine =
          disk_state 10 128
            (Block 1 65535 65535 (2 # 2 # 0 # 1 # 0 # replicate 5 0) #
             Block 1 65535 65535 (104 # 101 # 108 # 108 # 111 # replicate 5 0) #
             Block 1 65535 3 [6, 0, 0, 0, 0, 0, 0, 0, 1, 97] #
             Block 1 2 65535 (replicate 10 0) #
             replicate 124 (Block 0 65535 65535 (replicate 10 0)))
            54 3 0 10 \<lparr>in_use = 1, previous_block = 2, next_block = 65535\<rparr>\<rparr>)"
  by (simp add: append_scenario_def eval_simps fresh_state)

section \<open>Removing a directory (claim C4)\<close>

text \<open>
  C4 on the code. The calls \<open>mkdir("A")\<close>, \<open>mkdir("A/B")\<close> and \<open>rmdir("A/B")\<close> on a fresh backing
  file. The last call returns 0 and frees the regions of \<open>B\<close> (blocks 3 and 4), but the entry
  it marks UNUSED is the first entry of the root directory (block 0), which is the entry of
  \<open>A\<close>; the entry of \<open>B\<close> in the directory \<open>A\<close> (block 1) remains a DIRECTORY entry.
\<close>

definition rmdir_scenario :: "(int \<times> fs_state) option" where
  "rmdir_scenario =
     do {
       (_, f1) \<leftarrow> mkdir_virtual 20 [65] (initial_fs None);
       (_, f2) \<leftarrow> mkdir_virtual 20 [65, 47, 66] f1;
       rmdir_virtual 20 [65, 47, 66] f2
     }"

theorem rmdir_virtual_nested_scenario:
  "rmdir_scenario =
     Some (0,
       \<lparr>descriptors = \<lambda>_. None, last_used_descriptor = - 1,
        engine =
          disk_state 10 128
            (Block 1 65535 65535 (1 # 2 # 0 # 1 # 0 # replicate 5 0) #
             Block 1 65535 65535 (3 # 4 # 0 # 3 # 0 # replicate 5 0) #
             Block 1 65535 65535 (1 # 65 # replicate 8 0) #
             Block 0 65535 65535 (replicate 10 0) #
             Block 0 65535 65535 (1 # 66 # replicate 8 0) #
             replicate 123 (Block 0 65535 65535 (replicate 10 0)))
            69 4 0 1 \<lparr>in_use = 1, previous_block = 65535, next_block = 65535\<rparr>\<rparr>)"
  by (simp add: rmdir_scenario_def eval_simps fresh_state)

section \<open>The cursor of a descriptor stays within the length (claim C9)\<close>

text \<open>
  The public operations as values, and \<open>perform\<close>, which runs one and gives the state after
  it. \<open>cursor_within_length\<close> is the invariant of the claim over the 256 slots of the
  descriptor table (a cursor is unsigned, so \<open>0 \<le> cursor\<close> holds by its type).
\<close>

datatype operation =
    Open "byte list" "32 word"
  | Close int
  | Read int size_t
  | Write int "byte list" size_t
  | Seek int off_t int
  | Mkdir "byte list"
  | Rmdir "byte list"
  | Unlink "byte list"

fun perform :: "nat \<Rightarrow> operation \<Rightarrow> fs_state \<Rightarrow> fs_state option" where
  "perform fuel (Open path flags) f = map_option snd (open_virtual fuel path flags f)"
| "perform fuel (Close fd) f = Some (close_virtual fd f)"
| "perform fuel (Read fd n_bytes) f = map_option (snd \<circ> snd) (read_virtual fuel fd n_bytes f)"
| "perform fuel (Write fd buffer n_bytes) f = map_option snd (write_virtual fuel fd buffer n_bytes f)"
| "perform fuel (Seek fd offset whence) f = Some (snd (seek_virtual fd offset whence f))"
| "perform fuel (Mkdir path) f = map_option snd (mkdir_virtual fuel path f)"
| "perform fuel (Rmdir path) f = map_option snd (rmdir_virtual fuel path f)"
| "perform fuel (Unlink path) f = map_option snd (unlink_virtual fuel path f)"

definition cursor_within_length :: "fs_state \<Rightarrow> bool" where
  "cursor_within_length f =
     list_all (\<lambda>fd. case descriptors f fd of
                      None \<Rightarrow> True
                    | Some file \<Rightarrow> reader_position file \<le> file_length file)
       [0..<MAX_DESCRIPTORS]"

text \<open>
  \<open>cursor_stays_below_max\<close> excludes the one write that the invariant does not survive:
  the write that moves the cursor to \<open>2^64 - 1\<close>, after which \<open>cursor + 1\<close> is 0.
\<close>

fun cursor_stays_below_max :: "operation \<Rightarrow> fs_state \<Rightarrow> bool" where
  "cursor_stays_below_max (Write fd buffer n_bytes) f =
     (case descriptors f (nat fd) of
        None \<Rightarrow> True
      | Some file \<Rightarrow> reader_position file + n_bytes \<noteq> - 1)"
| "cursor_stays_below_max _ f = True"

lemma cursor_within_length_iff:
  "cursor_within_length f \<longleftrightarrow>
     (\<forall>fd file. fd < MAX_DESCRIPTORS \<longrightarrow> descriptors f fd = Some file
        \<longrightarrow> reader_position file \<le> file_length file)"
  by (auto simp: cursor_within_length_def list_all_iff split: option.splits)

lemma cursor_within_length_same:
  "descriptors f' = descriptors f \<Longrightarrow> cursor_within_length f \<Longrightarrow> cursor_within_length f'"
  by (simp add: cursor_within_length_def)

lemma cursor_within_length_update:
  assumes "cursor_within_length f" and "descriptors f' = (descriptors f)(slot \<mapsto> file)"
    and "reader_position file \<le> file_length file"
  shows "cursor_within_length f'"
  using assms by (auto simp: cursor_within_length_iff)

lemma cursor_within_length_remove:
  assumes "cursor_within_length f" and "descriptors f' = (descriptors f)(slot := None)"
  shows "cursor_within_length f'"
  using assms by (auto simp: cursor_within_length_iff)

lemma find_file_entry_position:
  "find_file_entry fuel name region s = Some (file, s') \<Longrightarrow> reader_position file = 0"
proof (induction fuel arbitrary: s)
  case 0
  then show ?case by simp
next
  case (Suc fuel)
  from Suc.prems show ?case
    by (auto simp: invalid_file_def Let_def split: if_splits prod.splits Option.bind_splits
        dest: Suc.IH)
qed

lemma find_virtual_file_position:
  "find_virtual_file fuel path s = Some (file, s') \<Longrightarrow> reader_position file = 0"
  by (auto simp: find_virtual_file_def invalid_file_def split: if_splits prod.splits
      Option.bind_splits dest: find_file_entry_position)

lemma create_virtual_file_position:
  "create_virtual_file fuel path s = Some (file, s') \<Longrightarrow> reader_position file = 0"
  by (auto simp: create_virtual_file_def invalid_file_def Let_def split: if_splits prod.splits
      Option.bind_splits)

lemma open_virtual_descriptors:
  assumes "open_virtual fuel path flags f = Some (r, f')"
  shows "descriptors f' = descriptors f
    \<or> (\<exists>slot file. descriptors f' = (descriptors f)(slot \<mapsto> file) \<and> reader_position file = 0)"
  using assms
  by (auto simp: open_virtual_def Let_def invalidate_last_descriptor_def
      split: if_splits option.splits prod.splits Option.bind_splits
      dest: find_virtual_file_position create_virtual_file_position)


lemma jump_to_file_if_needed_descriptors:
  "jump_to_file_if_needed fuel fd f = Some f' \<Longrightarrow> descriptors f' = descriptors f"
  by (auto simp: jump_to_file_if_needed_def split: if_splits option.splits prod.splits
      Option.bind_splits)

lemma update_virtual_file_metadata_descriptors:
  "update_virtual_file_metadata fuel region n f = Some f' \<Longrightarrow> descriptors f' = descriptors f"
  by (auto simp: update_virtual_file_metadata_def invalidate_last_descriptor_def
      split: prod.splits Option.bind_splits)

lemma read_cursor_bound:
  fixes position len n :: "64 word"
  shows "position + (if position + n > len then len - position else n) \<le> len"
  by (simp add: not_less)

lemma write_cursor_bound:
  fixes position :: "64 word"
  assumes "position \<noteq> - 1"
  shows "position \<le> position + 1"
proof -
  have "\<not> position + 1 \<le> position"
    using assms by (simp add: inc_less_eq_self_iff_eq)
  then show ?thesis by simp
qed

lemma read_virtual_descriptors:
  assumes "read_virtual fuel fd n f = Some (buffer, r, f')"
  shows "descriptors f' = descriptors f
    \<or> (\<exists>file. descriptors f' = (descriptors f)(nat fd \<mapsto> file)
          \<and> reader_position file \<le> file_length file)"
proof (cases "valid_descriptor f fd")
  case False
  with assms show ?thesis by (simp add: read_virtual_def)
next
  case True
  with assms obtain f1 vf s1 where j: "jump_to_file_if_needed fuel fd f = Some f1"
    and d: "descriptors f1 (nat fd) = Some vf"
    and f': "f' = f1\<lparr>descriptors := (descriptors f1)(nat fd \<mapsto>
               vf\<lparr>reader_position := reader_position vf
                 + (if reader_position vf + n > file_length vf
                    then file_length vf - reader_position vf else n)\<rparr>),
             engine := s1\<rparr>"
    by (auto simp: read_virtual_def Let_def split: option.splits prod.splits Option.bind_splits)
  have "descriptors f1 = descriptors f"
    using j by (rule jump_to_file_if_needed_descriptors)
  then show ?thesis
    using f' read_cursor_bound [of "reader_position vf" "file_length vf" n]
    by (intro disjI2 exI [of _ "vf\<lparr>reader_position := reader_position vf
                 + (if reader_position vf + n > file_length vf
                    then file_length vf - reader_position vf else n)\<rparr>"]) simp
qed

lemma write_virtual_descriptors:
  assumes "write_virtual fuel fd buffer n f = Some (r, f')"
    and "cursor_stays_below_max (Write fd buffer n) f"
  shows "descriptors f' = descriptors f
    \<or> (\<exists>file. descriptors f' = (descriptors f)(nat fd \<mapsto> file)
          \<and> reader_position file \<le> file_length file)"
proof (cases "valid_descriptor f fd")
  case False
  with assms show ?thesis by (simp add: write_virtual_def)
next
  case True
  with assms(1) obtain f1 vf s1 where j: "jump_to_file_if_needed fuel fd f = Some f1"
    and d: "descriptors f1 (nat fd) = Some vf"
    and r: "(reader_position vf + n \<ge> file_length vf
              \<and> update_virtual_file_metadata fuel (metadata_region vf)
                   (reader_position vf + n + 1)
                   (f1\<lparr>descriptors := (descriptors f1)(nat fd \<mapsto>
                         vf\<lparr>reader_position := reader_position vf + n,
                              file_length := reader_position vf + n + 1\<rparr>),
                       engine := s1\<rparr>) = Some f')
            \<or> (\<not> reader_position vf + n \<ge> file_length vf
              \<and> f' = f1\<lparr>descriptors := (descriptors f1)(nat fd \<mapsto>
                         vf\<lparr>reader_position := reader_position vf + n\<rparr>),
                       engine := s1\<rparr>)"
    by (auto simp: write_virtual_def Let_def split: option.splits prod.splits if_splits
        Option.bind_splits)
  have e: "descriptors f1 = descriptors f"
    using j by (rule jump_to_file_if_needed_descriptors)
  from r show ?thesis
  proof
    assume a: "reader_position vf + n \<ge> file_length vf
              \<and> update_virtual_file_metadata fuel (metadata_region vf)
                   (reader_position vf + n + 1)
                   (f1\<lparr>descriptors := (descriptors f1)(nat fd \<mapsto>
                         vf\<lparr>reader_position := reader_position vf + n,
                              file_length := reader_position vf + n + 1\<rparr>),
                       engine := s1\<rparr>) = Some f'"
    then have "descriptors f' = (descriptors f)(nat fd \<mapsto>
                         vf\<lparr>reader_position := reader_position vf + n,
                              file_length := reader_position vf + n + 1\<rparr>)"
      using e by (auto dest: update_virtual_file_metadata_descriptors)
    moreover have "reader_position vf + n \<noteq> - 1"
      using assms(2) d e by simp
    then have "reader_position vf + n \<le> reader_position vf + n + 1"
      by (rule write_cursor_bound)
    ultimately show ?thesis
      by (intro disjI2 exI [of _ "vf\<lparr>reader_position := reader_position vf + n,
                              file_length := reader_position vf + n + 1\<rparr>"]) simp
  next
    assume a: "\<not> reader_position vf + n \<ge> file_length vf
              \<and> f' = f1\<lparr>descriptors := (descriptors f1)(nat fd \<mapsto>
                         vf\<lparr>reader_position := reader_position vf + n\<rparr>),
                       engine := s1\<rparr>"
    then have "f' = f1\<lparr>descriptors := (descriptors f1)(nat fd \<mapsto>
                         vf\<lparr>reader_position := reader_position vf + n\<rparr>),
                       engine := s1\<rparr>"
      by simp
    moreover from a have "reader_position vf + n \<le> file_length vf"
      by (meson linear)
    ultimately show ?thesis
      using e
      by (intro disjI2 exI [of _ "vf\<lparr>reader_position := reader_position vf + n\<rparr>"]) simp
  qed
qed

lemma seek_virtual_descriptors:
  "descriptors (snd (seek_virtual fd offset whence f)) = descriptors f
    \<or> (\<exists>file. descriptors (snd (seek_virtual fd offset whence f)) = (descriptors f)(nat fd \<mapsto> file)
          \<and> reader_position file \<le> file_length file)"
  by (auto simp: seek_virtual_def Let_def split: option.splits)

lemma mkdir_virtual_descriptors:
  "mkdir_virtual fuel path f = Some (r, f') \<Longrightarrow> descriptors f' = descriptors f"
  by (auto simp: mkdir_virtual_def Let_def invalidate_last_descriptor_def
      split: if_splits prod.splits Option.bind_splits)

lemma rmdir_virtual_descriptors:
  "rmdir_virtual fuel path f = Some (r, f') \<Longrightarrow> descriptors f' = descriptors f"
  by (auto simp: rmdir_virtual_def Let_def invalidate_last_descriptor_def
      split: if_splits prod.splits Option.bind_splits)

lemma unlink_virtual_descriptors:
  "unlink_virtual fuel path f = Some (r, f') \<Longrightarrow> descriptors f' = descriptors f"
  by (auto simp: unlink_virtual_def Let_def invalidate_last_descriptor_def
      split: if_splits prod.splits Option.bind_splits)

definition open_file_state :: fs_state where
  "open_file_state =
     \<lparr>descriptors =
        (\<lambda>_. None)(0 \<mapsto> \<lparr>content_region = 1, metadata_region = 2, file_length = 0,
                             reader_position = 0\<rparr>),
      last_used_descriptor = - 1,
      engine =
        disk_state 10 128
          (Block 1 65535 65535 (2 # 2 # 0 # 1 # 0 # replicate 5 0) #
           Block 1 65535 65535 (replicate 10 0) #
           Block 1 65535 3 [0, 0, 0, 0, 0, 0, 0, 0, 1, 97] #
           Block 1 2 65535 (replicate 10 0) #
           replicate 124 (Block 0 65535 65535 (replicate 10 0)))
          54 3 0 10 \<lparr>in_use = 1, previous_block = 2, next_block = 65535\<rparr>\<rparr>"

definition written_file_state :: fs_state where
  "written_file_state =
     \<lparr>descriptors =
        (\<lambda>_. None)(0 \<mapsto> \<lparr>content_region = 1, metadata_region = 2, file_length = 6,
                             reader_position = 5\<rparr>),
      last_used_descriptor = - 1,
      engine =
        disk_state 10 128
          (Block 1 65535 65535 (2 # 2 # 0 # 1 # 0 # replicate 5 0) #
           Block 1 65535 65535 (104 # 101 # 108 # 108 # 111 # replicate 5 0) #
           Block 1 65535 3 [6, 0, 0, 0, 0, 0, 0, 0, 1, 97] #
           Block 1 2 65535 (replicate 10 0) #
           replicate 124 (Block 0 65535 65535 (replicate 10 0)))
          47 2 8 8 \<lparr>in_use = 1, previous_block = 65535, next_block = 3\<rparr>\<rparr>"

lemma open_file_state_reached:
  "open_virtual 20 [97] O_CREAT (initial_fs None) = Some (0, open_file_state)"
  by (simp add: open_file_state_def eval_simps fresh_state)

text \<open>
  A backing file of four blocks that holds one file, \<open>a\<close>, whose metadata region (block 2)
  gives the length \<open>2^64 - 1\<close>, and three calls on it: \<open>open("a", 0)\<close>,
  \<open>read(fd, buffer, 2^64 - 2)\<close> and \<open>write(fd, "x", 1)\<close>.
\<close>

definition crafted_blocks :: "block list" where
  "crafted_blocks =
     [Block 1 65535 65535 [2, 2, 0, 1, 0, 0, 0, 0, 0, 0],
      Block 1 65535 65535 [0, 0, 0, 0, 0, 0, 0, 0, 0, 0],
      Block 1 65535 3 [255, 255, 255, 255, 255, 255, 255, 255, 1, 97],
      Block 1 2 65535 [0, 0, 0, 0, 0, 0, 0, 0, 0, 0]]"

definition wrap_scenario :: "(fs_state \<times> fs_state \<times> fs_state) option" where
  "wrap_scenario =
     do {
       (fd, f1) \<leftarrow> open_virtual 20 [97] 0 (initial_fs (Some (render 10 4 crafted_blocks)));
       (_, _, f2) \<leftarrow> read_virtual 20 fd (- 2) f1;
       (_, f3) \<leftarrow> write_virtual 20 fd [120] 1 f2;
       Some (f1, f2, f3)
     }"

text \<open>
  C9 (amended). Every public operation that returns keeps \<open>cursor \<le> length\<close> for every
  live descriptor, unless it is a write that moves the cursor of its descriptor to
  \<open>2^64 - 1\<close>. (The table is empty when the program starts, so the invariant holds then.)
\<close>

theorem cursor_within_length_preserved:
  assumes "cursor_within_length f" and "perform fuel operation f = Some f'"
    and "cursor_stays_below_max operation f"
  shows "cursor_within_length f'"
proof (cases operation)
  case (Open path flags)
  with assms(2) obtain r where "open_virtual fuel path flags f = Some (r, f')"
    by auto
  from open_virtual_descriptors [OF this] assms(1) show ?thesis
    by (auto intro: cursor_within_length_same cursor_within_length_update)
next
  case (Close fd)
  with assms(1,2) show ?thesis
    by (auto simp: close_virtual_def split: if_splits
        intro: cursor_within_length_remove [where slot = "nat fd"])
next
  case (Read fd n)
  with assms(2) obtain buffer r where "read_virtual fuel fd n f = Some (buffer, r, f')"
    by auto
  from read_virtual_descriptors [OF this] assms(1) show ?thesis
    by (auto intro: cursor_within_length_same cursor_within_length_update)
next
  case (Write fd buffer n)
  with assms(2) obtain r where "write_virtual fuel fd buffer n f = Some (r, f')"
    by auto
  from write_virtual_descriptors [OF this] assms(1,3) Write show ?thesis
    by (auto intro: cursor_within_length_same cursor_within_length_update)
next
  case (Seek fd offset whence)
  with assms(2) have "f' = snd (seek_virtual fd offset whence f)"
    by simp
  with seek_virtual_descriptors [of fd offset whence f] assms(1) show ?thesis
    by (auto intro: cursor_within_length_same cursor_within_length_update)
next
  case (Mkdir path)
  with assms(1,2) show ?thesis
    by (auto intro: cursor_within_length_same dest: mkdir_virtual_descriptors)
next
  case (Rmdir path)
  with assms(1,2) show ?thesis
    by (auto intro: cursor_within_length_same dest: rmdir_virtual_descriptors)
next
  case (Unlink path)
  with assms(1,2) show ?thesis
    by (auto intro: cursor_within_length_same dest: unlink_virtual_descriptors)
qed

text \<open>The witness: the write of \<open>hello\<close> to the file just created.\<close>

theorem cursor_within_length_preserved_witness:
  "cursor_within_length open_file_state
   \<and> perform 20 (Write 0 [104, 101, 108, 108, 111] 5) open_file_state = Some written_file_state
   \<and> cursor_stays_below_max (Write 0 [104, 101, 108, 108, 111] 5) open_file_state
   \<and> cursor_within_length written_file_state"
proof -
  have i: "cursor_within_length open_file_state"
    by (simp add: cursor_within_length_iff open_file_state_def)
  have p: "perform 20 (Write 0 [104, 101, 108, 108, 111] 5) open_file_state
      = Some written_file_state"
    by (simp add: open_file_state_def written_file_state_def eval_simps)
  have m: "cursor_stays_below_max (Write 0 [104, 101, 108, 108, 111] 5) open_file_state"
    by (simp add: open_file_state_def)
  show ?thesis
    using i p m cursor_within_length_preserved [OF i p m] by simp
qed

text \<open>
  C9 as stated fails: after the \<open>open\<close> and the \<open>read\<close> of \<open>wrap_scenario\<close> the invariant holds
  (the cursor is \<open>2^64 - 2\<close>, the length \<open>2^64 - 1\<close>); the write of one byte moves the cursor
  to \<open>2^64 - 1\<close> and sets the length to \<open>cursor + 1\<close>, which is 0.
\<close>

theorem cursor_within_length_counterexample:
  "map_option
     (\<lambda>(f1, f2, f3). (cursor_within_length f1, cursor_within_length f2,
                       descriptors f3 0, cursor_within_length f3))
     wrap_scenario
   = Some (True, True,
       Some \<lparr>content_region = 1, metadata_region = 2, file_length = 0, reader_position = - 1\<rparr>,
       False)"
  by (simp add: wrap_scenario_def crafted_blocks_def eval_simps existing_state
      cursor_within_length_iff)

section \<open>Block allocation (claim C8)\<close>

text \<open>
  The scan of \<open>allocate_block\<close> on a backing file that is laid out as a list of blocks. The
  equations of \<open>allocate_block_from\<close> are applied one step at a time.
\<close>

declare allocate_block_from.simps [simp del]

text \<open>
  \<open>at_block\<close> is the state of the engine whose cursor stands at byte \<open>p\<close> of the payload of
  block \<open>c\<close>, the header of that block being the one read last.
\<close>

definition at_block :: "16 word \<Rightarrow> 16 word \<Rightarrow> block list \<Rightarrow> nat \<Rightarrow> nat \<Rightarrow> size_t \<Rightarrow> storage_state" where
  "at_block bsz bc blks c p rp =
     disk_state bsz bc blks (block_pos bsz c (5 + p)) (word_of_nat c) (word_of_nat p) rp
       (header_info (blks ! c))"

lemma at_block_sel [simp]:
  "active_block_size (at_block bsz bc blks c p rp) = bsz"
  "active_block_count (at_block bsz bc blks c p rp) = bc"
  "current_block_index (at_block bsz bc blks c p rp) = word_of_nat c"
  "current_block_position (at_block bsz bc blks c p rp) = word_of_nat p"
  "current_region_position (at_block bsz bc blks c p rp) = rp"
  "current_block (at_block bsz bc blks c p rp) = header_info (blks ! c)"
  "disk (at_block bsz bc blks c p rp) = render bsz bc blks"
  "storage_initialized (at_block bsz bc blks c p rp)"
  by (simp_all add: at_block_def)

lemma header_info_sel [simp]:
  "in_use (header_info b) = b_use b"
  "previous_block (header_info b) = b_prev b"
  "next_block (header_info b) = b_next b"
  by (simp_all add: header_info_def)

text \<open>
  The index of the first block of the list that the test of \<open>allocate_block\<close> takes as
  free: the first whose \<open>in_use\<close> byte is not 1.
\<close>

fun first_free :: "block list \<Rightarrow> nat option" where
  "first_free [] = None"
| "first_free (b # bs) = (if b_use b \<noteq> 1 then Some 0 else map_option Suc (first_free bs))"

lemma first_free_Some:
  "first_free blks = Some k \<longleftrightarrow>
     k < length blks \<and> b_use (blks ! k) \<noteq> 1 \<and> (\<forall>j<k. b_use (blks ! j) = 1)"
proof (induction blks arbitrary: k)
  case Nil
  then show ?case by simp
next
  case (Cons b bs)
  show ?case
  proof (cases "b_use b \<noteq> 1")
    case True
    then show ?thesis by (cases k) auto
  next
    case False
    show ?thesis
    proof (cases k)
      case 0
      with False show ?thesis by simp
    next
      case (Suc k')
      have "(\<forall>j<Suc k'. b_use ((b # bs) ! j) = 1) \<longleftrightarrow> (\<forall>j<k'. b_use (bs ! j) = 1)"
        using False by (auto simp: less_Suc_eq_0_disj)
      with False Suc Cons.IH [of k'] show ?thesis by auto
    qed
  qed
qed

lemma first_free_None: "first_free blks = None \<longleftrightarrow> (\<forall>j<length blks. b_use (blks ! j) = 1)"
proof (induction blks)
  case Nil
  then show ?case by simp
next
  case (Cons b bs)
  then show ?case by (auto simp: less_Suc_eq_0_disj)
qed

lemma jump_to_block_at:
  assumes "blocks_ok bsz bc blks" "b < bc"
  shows "jump_to_block b (disk_state bsz bc blks off ci cp rp cb) = at_block bsz bc blks (unat b) 0 rp"
  using jump_to_block_state [OF assms] by (simp add: at_block_def)

lemma patch_header:
  "patch_block 0 [u] b = Block u (b_prev b) (b_next b) (b_payload b)"
  "patch_block 1 (le16 p) b = Block (b_use b) p (b_next b) (b_payload b)"
  "patch_block 3 (le16 n) b = Block (b_use b) (b_prev b) n (b_payload b)"
proof -
  show "patch_block 0 [u] b = Block u (b_prev b) (b_next b) (b_payload b)"
    by (simp add: patch_block_def render_block_def parse_block_def le16_def
        del: le_word.simps) (simp add: le16_def [symmetric])
  obtain p0 p1 where p: "le16 p = [p0, p1]" by (simp add: le16_def)
  obtain n0 n1 where n: "le16 n = [n0, n1]" by (simp add: le16_def)
  obtain q0 q1 where q: "le16 (b_prev b) = [q0, q1]" by (simp add: le16_def)
  obtain m0 m1 where m: "le16 (b_next b) = [m0, m1]" by (simp add: le16_def)
  have pw: "le_word [p0, p1] = p" "le_word [n0, n1] = n"
    "le_word [q0, q1] = b_prev b" "le_word [m0, m1] = b_next b"
    using le_word_le16 [of p] le_word_le16 [of n] le_word_le16 [of "b_prev b"]
      le_word_le16 [of "b_next b"] p n q m by simp_all
  show "patch_block 1 (le16 p) b = Block (b_use b) p (b_next b) (b_payload b)"
    unfolding patch_block_def render_block_def parse_block_def p q m
    using pw by (simp del: le_word.simps)
  show "patch_block 3 (le16 n) b = Block (b_use b) (b_prev b) n (b_payload b)"
    unfolding patch_block_def render_block_def parse_block_def n q m
    using pw by (simp del: le_word.simps add: numeral_3_eq_3)
qed

lemma host_lseek_cur_back:
  "host_lseek_cur (- int k) (disk_state bsz bc blks (off + k) ci cp rp cb)
     = disk_state bsz bc blks off ci cp rp cb"
  by (simp add: host_lseek_cur_def)

lemma block_pos_add: "block_pos bsz j (r + k) = block_pos bsz j r + k"
  by (simp add: block_pos_def)

lemma write_header:
  assumes ok: "blocks_ok bsz bc blks" and j: "j < unat bc"
  shows "host_write (le16 n)
           (host_write (le16 p)
              (host_write [u]
                 (host_lseek_cur (- int BLOCK_HEADER_SIZE)
                    (disk_state bsz bc blks (block_pos bsz j 5) ci cp rp cb))))
         = disk_state bsz bc (blks[j := Block u p n (b_payload (blks ! j))])
             (block_pos bsz j 5) ci cp rp cb"
proof -
  have l: "j < length blks" using ok j by (simp add: blocks_ok_def)
  have pl: "length (b_payload (blks ! j)) = unat bsz" using ok j by (rule blocks_ok_nth)
  have s0: "host_lseek_cur (- int BLOCK_HEADER_SIZE)
      (disk_state bsz bc blks (block_pos bsz j 5) ci cp rp cb)
      = disk_state bsz bc blks (block_pos bsz j 0) ci cp rp cb"
    using host_lseek_cur_back [of 5 bsz bc blks "block_pos bsz j 0" ci cp rp cb]
      block_pos_add [of bsz j 0 5]
    by (simp add: BLOCK_HEADER_SIZE_def)
  let ?b1 = "Block u (b_prev (blks ! j)) (b_next (blks ! j)) (b_payload (blks ! j))"
  let ?b2 = "Block u p (b_next (blks ! j)) (b_payload (blks ! j))"
  let ?b3 = "Block u p n (b_payload (blks ! j))"
  have s1: "host_write [u] (disk_state bsz bc blks (block_pos bsz j 0) ci cp rp cb)
      = disk_state bsz bc (blks[j := ?b1]) (block_pos bsz j 1) ci cp rp cb"
    using host_write_block [OF ok j, of 0 "[u]" ci cp rp cb] by (simp add: patch_header)
  have ok1: "blocks_ok bsz bc (blks[j := ?b1])"
    using ok pl by (simp add: blocks_ok_update)
  have s2: "host_write (le16 p) (disk_state bsz bc (blks[j := ?b1]) (block_pos bsz j 1) ci cp rp cb)
      = disk_state bsz bc (blks[j := ?b2]) (block_pos bsz j 3) ci cp rp cb"
    using host_write_block [OF ok1 j, of 1 "le16 p" ci cp rp cb] l
    by (simp add: patch_header del: One_nat_def)
  have ok2: "blocks_ok bsz bc (blks[j := ?b2])"
    using ok pl by (simp add: blocks_ok_update)
  have s3: "host_write (le16 n) (disk_state bsz bc (blks[j := ?b2]) (block_pos bsz j 3) ci cp rp cb)
      = disk_state bsz bc (blks[j := ?b3]) (block_pos bsz j 5) ci cp rp cb"
    using host_write_block [OF ok2 j, of 3 "le16 n" ci cp rp cb] l
    by (simp add: patch_header)
  show ?thesis by (simp only: s0 s1 s2 s3)
qed

lemma unat_of_nat_16: "i < 65536 \<Longrightarrow> unat (word_of_nat i :: 16 word) = i"
  by (simp add: unat_of_nat)

lemma unat_bc_bound: "unat (bc :: 16 word) < 65536"
  using unsigned_less [of bc, where 'a = nat] by simp

lemma allocate_block_from_state:
  assumes ok: "blocks_ok bsz bc blks" and i: "i \<le> unat bc"
  shows "allocate_block_from prev (word_of_nat i) (disk_state bsz bc blks off ci cp rp cb)
     = (case first_free (drop i blks) of
          Some j \<Rightarrow>
            (word_of_nat (i + j),
             disk_state bsz bc (blks[i + j := Block 1 prev INVALID_BLOCK (b_payload (blks ! (i + j)))])
               (block_pos bsz (i + j) 5) (word_of_nat (i + j)) 0 rp (header_info (blks ! (i + j))))
        | None \<Rightarrow>
            (INVALID_BLOCK,
             if i < unat bc then at_block bsz bc blks (unat bc - 1) 0 rp
             else disk_state bsz bc blks off ci cp rp cb))"
  using i
proof (induction "unat bc - i" arbitrary: i off ci cp cb)
  case 0
  then have e: "i = unat bc" by simp
  then have "\<not> (word_of_nat i :: 16 word) < bc" by simp
  moreover have "drop i blks = []" using ok e by (simp add: blocks_ok_def)
  ultimately show ?case using e
    by (subst allocate_block_from.simps) simp
next
  case (Suc d)
  then have lt: "i < unat bc" by simp
  have l: "length blks = unat bc" using ok by (simp add: blocks_ok_def)
  have ui: "unat (word_of_nat i :: 16 word) = i"
    using lt unat_bc_bound [of bc] by (simp add: unat_of_nat_16)
  have wl: "(word_of_nat i :: 16 word) < bc"
    using lt ui by (simp add: word_less_nat_alt)
  have dr: "drop i blks = blks ! i # drop (Suc i) blks"
    using lt l by (simp add: Cons_nth_drop_Suc)
  have j: "jump_to_block (word_of_nat i) (disk_state bsz bc blks off ci cp rp cb)
      = disk_state bsz bc blks (block_pos bsz i 5) (word_of_nat i) 0 rp (header_info (blks ! i))"
    using jump_to_block_state [OF ok wl] ui by simp
  show ?case
  proof (cases "b_use (blks ! i) \<noteq> 1")
    case True
    show ?thesis
      using True wl
      by (subst allocate_block_from.simps)
        (simp add: j dr header_info_def not_set_iff Let_def write_header [OF ok lt]
           BLOCK_IN_USE_INDICATOR_def)
  next
    case False
    have d: "d = unat bc - Suc i" using Suc.hyps(2) by simp
    have s: "Suc i \<le> unat bc" using lt by simp
    have w: "(word_of_nat i :: 16 word) + 1 = word_of_nat (Suc i)" by simp
    have step: "allocate_block_from prev (word_of_nat i) (disk_state bsz bc blks off ci cp rp cb)
        = allocate_block_from prev (word_of_nat (Suc i))
            (disk_state bsz bc blks (block_pos bsz i 5) (word_of_nat i) 0 rp (header_info (blks ! i)))"
      using False wl
      by (subst allocate_block_from.simps)
        (simp only: j Let_def w, simp add: header_info_def not_set_iff)
    have at: "Suc i < unat bc \<or> (Suc i = unat bc)" using lt by auto
    have last: "\<not> Suc i < unat bc \<Longrightarrow>
        disk_state bsz bc blks (block_pos bsz i 5) (word_of_nat i) 0 rp (header_info (blks ! i))
        = at_block bsz bc blks (unat bc - 1) 0 rp"
    proof -
      assume "\<not> Suc i < unat bc"
      then have e: "unat bc - 1 = i" using lt by simp
      show ?thesis unfolding at_block_def e by simp
    qed
    show ?thesis
      unfolding step Suc.hyps(1) [OF d s]
      using False by (simp add: dr lt last split: option.splits)
  qed
qed

lemma allocate_block_state:
  assumes ok: "blocks_ok bsz bc blks"
  shows "allocate_block prev (disk_state bsz bc blks off ci cp rp cb)
     = (case first_free blks of
          Some j \<Rightarrow>
            (word_of_nat j,
             disk_state bsz bc (blks[j := Block 1 prev INVALID_BLOCK (b_payload (blks ! j))])
               (block_pos bsz j 5) (word_of_nat j) 0 rp (header_info (blks ! j)))
        | None \<Rightarrow>
            (INVALID_BLOCK,
             if 0 < unat bc then at_block bsz bc blks (unat bc - 1) 0 rp
             else disk_state bsz bc blks off ci cp rp cb))"
  using allocate_block_from_state [OF ok, of 0 prev off ci cp rp cb]
  by (simp add: allocate_block_def split: option.splits)

text \<open>
  The scan as the specification words it: the index of the first block whose \<open>in_use\<close>
  flag is 0. On a list whose flags are all 0 or 1 it is \<open>first_free\<close>.
\<close>

fun spec_first_free :: "block list \<Rightarrow> nat option" where
  "spec_first_free [] = None"
| "spec_first_free (b # bs) =
     (if b_use b = 0 then Some 0 else map_option Suc (spec_first_free bs))"

lemma spec_first_free_Some:
  "spec_first_free blks = Some k \<longleftrightarrow>
     k < length blks \<and> b_use (blks ! k) = 0 \<and> (\<forall>j<k. b_use (blks ! j) \<noteq> 0)"
proof (induction blks arbitrary: k)
  case Nil
  then show ?case by simp
next
  case (Cons b bs)
  show ?case
  proof (cases "b_use b = 0")
    case True
    then show ?thesis by (cases k) auto
  next
    case False
    show ?thesis
    proof (cases k)
      case 0
      then show ?thesis using False by simp
    next
      case (Suc k')
      have "(\<forall>j<Suc k'. b_use ((b # bs) ! j) \<noteq> 0) \<longleftrightarrow> (\<forall>j<k'. b_use (bs ! j) \<noteq> 0)"
        using False by (auto simp: less_Suc_eq_0_disj)
      then show ?thesis using False Suc Cons.IH [of k'] by auto
    qed
  qed
qed

lemma first_free_spec:
  "list_all (\<lambda>b. b_use b = 0 \<or> b_use b = 1) blks \<Longrightarrow> first_free blks = spec_first_free blks"
  by (induction blks) auto

text \<open>
  C8 (amended). The claim does not hold for every state of the backing file. It holds on
  every backing file that consists of its header and \<open>block_count\<close> blocks of 5 header bytes
  and \<open>block_size\<close> payload bytes, that is smaller than 2 GiB (the file positions then fit
  the \<open>int\<close> that \<open>jump_to_block\<close> computes them in), and in which every \<open>in_use\<close> byte is 0
  or 1: \<open>blocks_ok\<close> is the first two conditions. On such a file \<open>allocate_block\<close> returns the
  index of the first block whose \<open>in_use\<close> byte is 0 and rewrites the header of that block
  to \<open>in_use = 1\<close>, \<open>prev = previous_block\<close>, \<open>next = INVALID\<close>, the rest of the file staying
  as it is; when no block has the byte 0 it returns \<open>INVALID_BLOCK\<close> and the file is
  unchanged. \<open>storage_allocate_region\<close> is this scan with \<open>previous_block = INVALID\<close>.
\<close>

theorem allocate_block_first_free:
  assumes "blocks_ok bsz bc blks"
    and "list_all (\<lambda>b. b_use b = 0 \<or> b_use b = 1) blks"
  shows "(case spec_first_free blks of
            Some k \<Rightarrow>
              fst (allocate_block prev (disk_state bsz bc blks off ci cp rp cb)) = word_of_nat k
              \<and> disk (snd (allocate_block prev (disk_state bsz bc blks off ci cp rp cb)))
                  = render bsz bc
                      (blks[k := Block BLOCK_IN_USE_INDICATOR prev INVALID_BLOCK (b_payload (blks ! k))])
          | None \<Rightarrow>
              fst (allocate_block prev (disk_state bsz bc blks off ci cp rp cb)) = INVALID_BLOCK
              \<and> disk (snd (allocate_block prev (disk_state bsz bc blks off ci cp rp cb)))
                  = render bsz bc blks)
         \<and> storage_allocate_region (disk_state bsz bc blks off ci cp rp cb)
             = allocate_block INVALID_BLOCK (disk_state bsz bc blks off ci cp rp cb)"
  using assms(1) first_free_spec [OF assms(2)]
  by (simp add: allocate_block_state storage_allocate_region_def BLOCK_IN_USE_INDICATOR_def
      split: option.splits)

text \<open>The witness: three blocks of two bytes, the first in use.\<close>

definition three_blocks :: "block list" where
  "three_blocks =
     [Block 1 65535 65535 [0, 0], Block 0 65535 65535 [7, 8], Block 0 65535 65535 [0, 0]]"

theorem allocate_block_first_free_witness:
  "blocks_ok 2 3 three_blocks
   \<and> list_all (\<lambda>b. b_use b = 0 \<or> b_use b = 1) three_blocks
   \<and> spec_first_free three_blocks = Some 1
   \<and> fst (allocate_block 0 (disk_state 2 3 three_blocks 4 0 0 0
             \<lparr>in_use = 0, previous_block = 0, next_block = 0\<rparr>)) = 1
   \<and> disk (snd (allocate_block 0 (disk_state 2 3 three_blocks 4 0 0 0
             \<lparr>in_use = 0, previous_block = 0, next_block = 0\<rparr>)))
       = render 2 3
           [Block 1 65535 65535 [0, 0], Block 1 0 65535 [7, 8], Block 0 65535 65535 [0, 0]]"
proof -
  have ok: "blocks_ok 2 3 three_blocks"
    by (simp add: blocks_ok_def three_blocks_def)
  have bits: "list_all (\<lambda>b. b_use b = 0 \<or> b_use b = 1) three_blocks"
    by (simp add: three_blocks_def)
  have ff: "spec_first_free three_blocks = Some 1"
    by (simp add: three_blocks_def)
  show ?thesis
    using ok bits ff
      allocate_block_first_free [OF ok bits, of 0 4 0 0 0
        "\<lparr>in_use = 0, previous_block = 0, next_block = 0\<rparr>"]
    by (simp add: three_blocks_def BLOCK_IN_USE_INDICATOR_def INVALID_BLOCK_def INVALID_REGION_def)
qed

text \<open>
  C8 as stated fails on a backing file with an \<open>in_use\<close> byte other than 0 and 1. In
  \<open>odd_blocks\<close> the first block has the byte 1, the second the byte 2 and the third the byte
  0; the file is the 25 bytes of \<open>odd_file\<close>. The first block whose \<open>in_use\<close> flag is 0 is
  block 2, but the test \<open>!current_block_.in_use\<close> holds at block 1 already: \<open>allocate_block\<close>
  rewrites the header of block 1 and returns 1.
\<close>

definition odd_blocks :: "block list" where
  "odd_blocks =
     [Block 1 65535 65535 [0, 0], Block 2 65535 65535 [7, 8], Block 0 65535 65535 [0, 0]]"

definition odd_file :: "byte list" where
  "odd_file =
     [2, 0, 3, 0,
      1, 255, 255, 255, 255, 0, 0,
      2, 255, 255, 255, 255, 7, 8,
      0, 255, 255, 255, 255, 0, 0]"

theorem allocate_block_odd_byte_counterexample:
  "disk (disk_state 2 3 odd_blocks 4 0 0 0 \<lparr>in_use = 0, previous_block = 0, next_block = 0\<rparr>)
     = odd_file
   \<and> spec_first_free odd_blocks = Some 2
   \<and> fst (allocate_block 0 (disk_state 2 3 odd_blocks 4 0 0 0
             \<lparr>in_use = 0, previous_block = 0, next_block = 0\<rparr>)) = 1
   \<and> disk (snd (allocate_block 0 (disk_state 2 3 odd_blocks 4 0 0 0
             \<lparr>in_use = 0, previous_block = 0, next_block = 0\<rparr>)))
       = [2, 0, 3, 0,
          1, 255, 255, 255, 255, 0, 0,
          1, 0, 0, 255, 255, 7, 8,
          0, 255, 255, 255, 255, 0, 0]"
  by (simp add: odd_blocks_def odd_file_def allocate_block_def eval_simps render_def)

section \<open>Reading and writing a region, block by block\<close>

text \<open>
  The loops of \<open>storage_write_in_region\<close> and \<open>storage_read_in_region\<close> on a backing file
  that is laid out as a list of blocks. The counters are 64-bit words; the lemmas turn the
  loop conditions into conditions on natural numbers.
\<close>

lemma unat_ucast_16_64: "unat (ucast (b :: 16 word) :: 64 word) = unat b"
  using unat_bc_bound [of b] by (simp add: unsigned_ucast_eq take_bit_nat_eq_self)

lemma unat_of_nat_64: "p < 2 ^ 64 \<Longrightarrow> unat (word_of_nat p :: 64 word) = p"
  by (simp add: unat_of_nat)

lemma unat_remaining:
  assumes "p < 65536" "unat w \<le> unat n" "unat n < 2 ^ 63"
  shows "unat ((word_of_nat p :: 64 word) + n - w) = p + (unat n - unat w)"
proof -
  have le: "w \<le> n" using assms(2) by (simp add: word_le_nat_alt)
  have s: "unat (n - w) = unat n - unat w" using le by (rule unat_sub)
  have p: "unat (word_of_nat p :: 64 word) = p" using assms(1) by (simp add: unat_of_nat)
  have "unat (word_of_nat p :: 64 word) + unat (n - w) < 2 ^ LENGTH(64)"
    using assms p s by simp
  then have "unat ((word_of_nat p :: 64 word) + (n - w)) = unat (word_of_nat p :: 64 word) + unat (n - w)"
    using unat_add_lem [of "word_of_nat p" "n - w"] by blast
  then show ?thesis using p s by (simp add: add_diff_eq)
qed

lemma unat_advance:
  assumes "unat (w :: 64 word) + k \<le> unat n" "unat (n :: 64 word) < 2 ^ 63"
  shows "unat (w + word_of_nat k) = unat w + k"
proof -
  have k: "unat (word_of_nat k :: 64 word) = k" using assms by (simp add: unat_of_nat)
  have "unat w + unat (word_of_nat k :: 64 word) < 2 ^ LENGTH(64)"
    using assms k by simp
  then have "unat (w + word_of_nat k) = unat w + unat (word_of_nat k :: 64 word)"
    using unat_add_lem [of w "word_of_nat k"] by blast
  then show ?thesis using k by simp
qed

text \<open>
  The two changes the engine makes to a block: bytes written into the payload from position
  \<open>p\<close> on, and a new \<open>next\<close> link.
\<close>

definition put_payload :: "nat \<Rightarrow> byte list \<Rightarrow> block \<Rightarrow> block" where
  "put_payload p data b =
     Block (b_use b) (b_prev b) (b_next b)
       (take p (b_payload b) @ data @ drop (p + length data) (b_payload b))"

definition set_next :: "block_index \<Rightarrow> block \<Rightarrow> block" where
  "set_next n b = Block (b_use b) (b_prev b) n (b_payload b)"

lemma render_block_split:
  "render_block b = (b_use b # le16 (b_prev b) @ le16 (b_next b)) @ b_payload b"
  by (simp add: render_block_def)

lemma length_block_header: "length (b_use b # le16 (b_prev b) @ le16 (b_next b)) = 5"
  by simp

lemma render_block_header:
  obtains h where "length h = 5" and "\<forall>pl. render_block (Block (b_use b) (b_prev b) (b_next b) pl) = h @ pl"
proof
  show "length (b_use b # le16 (b_prev b) @ le16 (b_next b)) = 5" by simp
  show "\<forall>pl. render_block (Block (b_use b) (b_prev b) (b_next b) pl)
      = (b_use b # le16 (b_prev b) @ le16 (b_next b)) @ pl"
    by (simp add: render_block_def)
qed

lemma patch_payload: "patch_block (5 + p) data b = put_payload p data b"
proof -
  obtain h where h: "length h = 5"
    and r: "\<forall>pl. render_block (Block (b_use b) (b_prev b) (b_next b) pl) = h @ pl"
    by (rule render_block_header)
  have b: "render_block b = h @ b_payload b"
    using r [rule_format, of "b_payload b"] by simp
  have "take (5 + p) (render_block b) @ data @ drop (5 + p + length data) (render_block b)
      = h @ (take p (b_payload b) @ data @ drop (p + length data) (b_payload b))"
    unfolding b using h by (simp add: add.assoc)
  also have "\<dots> = render_block (put_payload p data b)"
    unfolding put_payload_def by (simp only: r [rule_format])
  finally show ?thesis by (simp add: patch_block_def)
qed

lemma take_drop_payload:
  "take k (drop (5 + p) (render_block b)) = take k (drop p (b_payload b))"
proof -
  obtain h where h: "length h = 5"
    and r: "\<forall>pl. render_block (Block (b_use b) (b_prev b) (b_next b) pl) = h @ pl"
    by (rule render_block_header)
  have b: "render_block b = h @ b_payload b"
    using r [rule_format, of "b_payload b"] by simp
  show ?thesis unfolding b using h by simp
qed

lemma host_read_payload:
  assumes ok: "blocks_ok bsz bc blks" and c: "c < unat bc" and k: "p + k \<le> unat bsz"
  shows "host_read k (at_block bsz bc blks c p rp)
     = (take k (drop p (b_payload (blks ! c))),
        disk_state bsz bc blks (block_pos bsz c (5 + (p + k))) (word_of_nat c) (word_of_nat p) rp
          (header_info (blks ! c)))"
  using host_read_block [OF ok c, of "5 + p" k] k
  by (simp add: at_block_def take_drop_payload add.assoc)

lemma host_write_payload:
  assumes ok: "blocks_ok bsz bc blks" and c: "c < unat bc" and k: "p + length data \<le> unat bsz"
  shows "host_write data (at_block bsz bc blks c p rp)
     = disk_state bsz bc (blks[c := put_payload p data (blks ! c)])
         (block_pos bsz c (5 + (p + length data))) (word_of_nat c) (word_of_nat p) rp
         (header_info (blks ! c))"
  using host_write_block [OF ok c, of "5 + p" data] k
  by (simp add: at_block_def patch_payload add.assoc)

lemma header_info_put_payload [simp]: "header_info (put_payload p data b) = header_info b"
  by (simp add: header_info_def put_payload_def)

lemma put_payload_sel [simp]:
  "b_use (put_payload p data b) = b_use b"
  "b_prev (put_payload p data b) = b_prev b"
  "b_next (put_payload p data b) = b_next b"
  "b_payload (put_payload p data b) = take p (b_payload b) @ data @ drop (p + length data) (b_payload b)"
  by (simp_all add: put_payload_def)

lemma set_next_sel [simp]:
  "b_use (set_next n b) = b_use b"
  "b_prev (set_next n b) = b_prev b"
  "b_next (set_next n b) = n"
  "b_payload (set_next n b) = b_payload b"
  by (simp_all add: set_next_def)

lemma blocks_ok_put_payload:
  assumes "blocks_ok bsz bc blks" "c < unat bc" "p + length data \<le> unat bsz"
  shows "blocks_ok bsz bc (blks[c := put_payload p data (blks ! c)])"
proof -
  have "length (b_payload (blks ! c)) = unat bsz" using assms(1,2) by (rule blocks_ok_nth)
  then have "length (b_payload (put_payload p data (blks ! c))) = unat bsz"
    using assms(3) by simp
  with assms(1) show ?thesis by (rule blocks_ok_update)
qed

text \<open>The last statements of \<open>storage_write_in_region\<close>: the bytes fit into the current block.\<close>

lemma rest_of_block:
  assumes "p \<le> unat (bsz :: 16 word)"
  shows "to_int (uint (ucast bsz - (word_of_nat p :: 64 word))) = int (unat bsz - p)"
proof -
  have pb: "p < 65536" using assms unat_bc_bound [of bsz] by simp
  have up: "unat (word_of_nat p :: 64 word) = p" using pb by (simp add: unat_of_nat)
  have ple: "(word_of_nat p :: 64 word) \<le> ucast bsz"
    using assms by (simp add: word_le_nat_alt up unat_ucast_16_64)
  have "unat (ucast bsz - (word_of_nat p :: 64 word)) = unat bsz - p"
    using unat_sub [OF ple] by (simp add: up unat_ucast_16_64)
  then have u: "uint (ucast bsz - (word_of_nat p :: 64 word)) = int (unat bsz - p)"
    by (simp add: uint_nat)
  have "unat bsz - p < 2147483648" using unat_bc_bound [of bsz] by simp
  then show ?thesis unfolding u by (rule to_int_nat)
qed

lemma write_loop_direct:
  assumes ok: "blocks_ok bsz bc blks" and c: "c < unat bc"
    and w: "unat w \<le> unat n" and n: "unat n \<le> length buffer" and nb: "unat n < 2 ^ 63"
    and fit: "p + (unat n - unat w) < unat bsz"
  shows "write_loop (Suc fuel) buffer n w (at_block bsz bc blks c p rp)
     = Some (n, at_block bsz bc
          (blks[c := put_payload p (take (unat n - unat w) (drop (unat w) buffer)) (blks ! c)])
          c (p + (unat n - unat w)) (rp + n))"
proof -
  let ?m = "unat n - unat w"
  let ?data = "take ?m (drop (unat w) buffer)"
  have pb: "p < 65536" using fit unat_bc_bound [of bsz] by simp
  have r: "unat ((word_of_nat p :: 64 word) + n - w) = p + ?m"
    using pb w nb by (rule unat_remaining)
  have cond: "\<not> (ucast bsz \<le> (word_of_nat p :: 64 word) + n - w)"
    using fit by (simp add: word_le_nat_alt r unat_ucast_16_64)
  have le: "w \<le> n" using w by (simp add: word_le_nat_alt)
  have m: "unat (n - w) = ?m" using le by (rule unat_sub)
  have ld: "length ?data = ?m" using n w by simp
  have hw: "host_write ?data (at_block bsz bc blks c p rp)
      = disk_state bsz bc (blks[c := put_payload p ?data (blks ! c)])
         (block_pos bsz c (5 + (p + ?m))) (word_of_nat c) (word_of_nat p) rp
         (header_info (blks ! c))"
    using host_write_payload [OF ok c, of p ?data rp] fit ld by simp
  have cp: "(word_of_nat p :: 64 word) + (n - w) = word_of_nat (p + ?m)"
  proof -
    have "word_of_nat (p + unat (n - w)) = (word_of_nat p :: 64 word) + (n - w)" by simp
    then show ?thesis using m by simp
  qed
  have l: "c < length blks" using ok c by (simp add: blocks_ok_def)
  have room: "\<not> length buffer < unat w + ?m" using n w by simp
  show ?thesis
    using cond room
    by (simp add: at_block_def [of bsz bc blks c p rp] m hw [unfolded at_block_def] cp)
      (simp add: at_block_def l)
qed

text \<open>
  \<open>storage_write_in_region\<close> at the end of a region (the current block has no successor),
  on the list of blocks: it fills the current block, takes the first free block as the next
  one and goes on there. The result is the new list, the indices of the blocks taken, the
  block and position the cursor ends at (\<open>None\<close> when no block was free), and the number of
  bytes accepted. \<open>write_loop_write_blocks\<close> says that the loop of the engine does this.
\<close>

function write_blocks :: "nat \<Rightarrow> block list \<Rightarrow> nat \<Rightarrow> nat \<Rightarrow> byte list
    \<Rightarrow> block list \<times> nat list \<times> (nat \<times> nat) option \<times> nat" where
  "write_blocks N blks c p data =
     (if p < N \<and> N \<le> p + length data then
        (let blks1 = blks[c := put_payload p (take (N - p) data) (blks ! c)] in
         case first_free blks1 of
           None \<Rightarrow> (blks1, [], None, N - p)
         | Some j \<Rightarrow>
             (let blks2 = blks1[j := Block 1 (word_of_nat c) INVALID_BLOCK (b_payload (blks1 ! j))];
                  blks3 = blks2[c := set_next (word_of_nat j) (blks2 ! c)];
                  (blks', js, fin, k) = write_blocks N blks3 j 0 (drop (N - p) data)
              in (blks', j # js, fin, k + (N - p))))
      else (blks[c := put_payload p data (blks ! c)], [], Some (c, p + length data), length data))"
  by pat_completeness auto
termination
  by (relation "measure (\<lambda>(N, blks, c, p, data). length data)") auto

declare write_blocks.simps [simp del]

lemma patch_next: "patch_block 3 (le16 n) b = set_next n b"
  by (simp add: patch_header set_next_def)

lemma write_next:
  assumes ok: "blocks_ok bsz bc blks" and c: "c < unat bc"
  shows "host_write (le16 n) (host_lseek_cur (- 2) (at_block bsz bc blks c 0 rp))
     = disk_state bsz bc (blks[c := set_next n (blks ! c)]) (block_pos bsz c 5)
         (word_of_nat c) 0 rp (header_info (blks ! c))"
proof -
  have "host_lseek_cur (- int 2) (disk_state bsz bc blks (block_pos bsz c 3 + 2) (word_of_nat c) 0 rp
      (header_info (blks ! c)))
      = disk_state bsz bc blks (block_pos bsz c 3) (word_of_nat c) 0 rp (header_info (blks ! c))"
    by (rule host_lseek_cur_back)
  then have s: "host_lseek_cur (- 2) (at_block bsz bc blks c 0 rp)
      = disk_state bsz bc blks (block_pos bsz c 3) (word_of_nat c) 0 rp (header_info (blks ! c))"
    by (simp add: at_block_def block_pos_def)
  show ?thesis
    unfolding s using host_write_block [OF ok c, of 3 "le16 n"]
    by (simp add: patch_next)
qed

lemma div_add_self_Suc: "0 < (N :: nat) \<Longrightarrow> (a + N) div N = Suc (a div N)"
  using div_add_self2 [of N a] by auto

lemma write_loop_write_blocks:
  assumes ok: "blocks_ok bsz bc blks" and c: "c < unat bc" and p: "p < unat bsz"
    and use: "b_use (blks ! c) = 1" and nx: "b_next (blks ! c) = INVALID_BLOCK"
    and w: "unat w \<le> unat n" and n: "unat n \<le> length buffer" and nb: "unat n < 2 ^ 63"
    and fuel: "(p + (unat n - unat w)) div unat bsz < fuel"
  shows "write_loop fuel buffer n w (at_block bsz bc blks c p rp)
     = (case write_blocks (unat bsz) blks c p (take (unat n - unat w) (drop (unat w) buffer)) of
          (blks', js, Some (c', p'), k) \<Rightarrow> Some (n, at_block bsz bc blks' c' p' (rp + n))
        | (blks', js, None, k) \<Rightarrow>
            Some (w + word_of_nat k, at_block bsz bc blks' (unat bc - 1) 0 rp))"
  using ok c p use nx w fuel
proof (induction fuel arbitrary: blks c p w)
  case 0
  then show ?case by simp
next
  case (Suc fuel)
  let ?N = "unat bsz"
  let ?m = "unat n - unat w"
  define data where "data = take ?m (drop (unat w) buffer)"
  note ok = Suc.prems(1) and c = Suc.prems(2) and p = Suc.prems(3) and use = Suc.prems(4)
    and nx = Suc.prems(5) and w = Suc.prems(6) and fuel = Suc.prems(7)
  have ld: "length data = ?m" using n w by (simp add: data_def)
  have l: "length blks = unat bc" using ok by (simp add: blocks_ok_def)
  show ?case
  proof (cases "p + ?m < ?N")
    case True
    have a: "write_blocks ?N blks c p data
        = (blks[c := put_payload p data (blks ! c)], [], Some (c, p + ?m), ?m)"
      using True ld by (subst write_blocks.simps) simp
    show ?thesis
      unfolding data_def [symmetric] a
      using write_loop_direct [OF ok c w n nb True] by (simp add: data_def)
  next
    case False
    then have full: "?N \<le> p + ?m" by simp
    have full': "?N \<le> p + length data" using full ld by simp
    define k where "k = ?N - p"
    define chunk where "chunk = take k data"
    define blks1 where "blks1 = blks[c := put_payload p chunk (blks ! c)]"
    have pb: "p < 65536" using p unat_bc_bound [of bsz] by simp
    have r: "unat ((word_of_nat p :: 64 word) + n - w) = p + ?m"
      using pb w nb by (rule unat_remaining)
    have cond: "ucast bsz \<le> (word_of_nat p :: 64 word) + n - w"
      using full by (simp add: word_le_nat_alt r unat_ucast_16_64)
    have up: "unat (word_of_nat p :: 64 word) = p" using pb by (simp add: unat_of_nat)
    have btw: "to_int (uint (ucast bsz - (word_of_nat p :: 64 word))) = int k"
      using rest_of_block [of p bsz] p by (simp add: k_def)
    have kpos: "0 < k" and km: "k \<le> ?m" and kp: "p + k = ?N" using p full by (simp_all add: k_def)
    have room: "\<not> length buffer < unat w + k" using km n w by simp
    have chunk: "take k (drop (unat w) buffer) = chunk"
      using km by (simp add: chunk_def data_def min_absorb1)
    have lc: "length chunk = k" using ld km by (simp add: chunk_def)
    have hw: "host_write chunk (at_block bsz bc blks c p rp)
        = disk_state bsz bc blks1 (block_pos bsz c (5 + ?N)) (word_of_nat c) (word_of_nat p) rp
           (header_info (blks ! c))"
      using host_write_payload [OF ok c, of p chunk rp] lc kp by (simp add: blks1_def)
    have ok1: "blocks_ok bsz bc blks1"
      unfolding blks1_def using ok c lc kp by (intro blocks_ok_put_payload) simp_all
    have l1: "length blks1 = unat bc" using ok1 by (simp add: blocks_ok_def)
    have bcpos: "0 < unat bc" using c by simp
    have uc: "unat (word_of_nat c :: 16 word) = c"
      using c unat_bc_bound [of bc] by (simp add: unat_of_nat_16)
    have cw: "(word_of_nat c :: 16 word) < bc" using c uc by (simp add: word_less_nat_alt)
    have w': "unat (w + word_of_nat k) = unat w + k"
      using km w nb by (intro unat_advance [where n = n]) simp_all
    have head: "write_loop (Suc fuel) buffer n w (at_block bsz bc blks c p rp)
        = (let (new_block, s2) = allocate_block (word_of_nat c)
                 (disk_state bsz bc blks1 (block_pos bsz c (5 + ?N)) (word_of_nat c) (word_of_nat p) rp
                    (header_info (blks ! c)))
           in if new_block = INVALID_BLOCK then Some (w + word_of_nat k, s2)
              else write_loop fuel buffer n (w + word_of_nat k)
                     (jump_to_block new_block
                        (host_write (le16 new_block)
                           (host_lseek_cur (- 2) (jump_to_block (word_of_nat c) s2)))))"
      using cond nx room
      by (simp add: Let_def btw chunk hw split: prod.splits)
    show ?thesis
    proof (cases "first_free blks1")
      case None
      have a: "write_blocks ?N blks c p data = (blks1, [], None, k)"
        using full' p None
        by (subst write_blocks.simps) (simp add: k_def [symmetric] chunk_def [symmetric] blks1_def [symmetric])
      show ?thesis
        unfolding data_def [symmetric] a head
        using bcpos None by (simp add: allocate_block_state [OF ok1])
    next
      case (Some j)
      define blks2 where "blks2 = blks1[j := Block 1 (word_of_nat c) INVALID_BLOCK (b_payload (blks1 ! j))]"
      define blks3 where "blks3 = blks2[c := set_next (word_of_nat j) (blks2 ! c)]"
      from Some have j: "j < length blks1" and jf: "b_use (blks1 ! j) \<noteq> 1"
        by (simp_all add: first_free_Some)
      have jb: "j < unat bc" using j l1 by simp
      have jc: "j \<noteq> c" using jf use c l by (auto simp: blks1_def)
      have uj: "unat (word_of_nat j :: 16 word) = j"
        using jb unat_bc_bound [of bc] by (simp add: unat_of_nat_16)
      have jw: "(word_of_nat j :: 16 word) < bc" using jb uj by (simp add: word_less_nat_alt)
      have jinv: "(word_of_nat j :: 16 word) \<noteq> INVALID_BLOCK"
      proof
        assume "(word_of_nat j :: 16 word) = INVALID_BLOCK"
        then have "unat (word_of_nat j :: 16 word) = 65535"
          by (simp add: INVALID_BLOCK_def INVALID_REGION_def)
        then show False using uj jb unat_bc_bound [of bc] by simp
      qed
      have pl1: "length (b_payload (blks1 ! j)) = unat bsz" using ok1 jb by (rule blocks_ok_nth)
      have ok2: "blocks_ok bsz bc blks2"
        unfolding blks2_def using ok1 pl1 by (intro blocks_ok_update) simp_all
      have pl2: "length (b_payload (blks2 ! c)) = unat bsz" using ok2 c by (rule blocks_ok_nth)
      have ok3: "blocks_ok bsz bc blks3"
        unfolding blks3_def using ok2 pl2 by (intro blocks_ok_update) simp_all
      have a: "write_blocks ?N blks c p data
          = (case write_blocks ?N blks3 j 0 (drop k data) of
               (blks', js, fin, k') \<Rightarrow> (blks', j # js, fin, k' + k))"
        using full' p Some
        by (subst write_blocks.simps)
          (simp add: Let_def k_def [symmetric] chunk_def [symmetric] blks1_def [symmetric]
            blks2_def [symmetric] blks3_def [symmetric])
      have alloc: "allocate_block (word_of_nat c)
            (disk_state bsz bc blks1 (block_pos bsz c (5 + ?N)) (word_of_nat c) (word_of_nat p) rp
               (header_info (blks ! c)))
          = (word_of_nat j,
             disk_state bsz bc blks2 (block_pos bsz j 5) (word_of_nat j) 0 rp
               (header_info (blks1 ! j)))"
        using Some by (simp add: allocate_block_state [OF ok1] blks2_def)
      have j1: "jump_to_block (word_of_nat c)
            (disk_state bsz bc blks2 (block_pos bsz j 5) (word_of_nat j) 0 rp
               (header_info (blks1 ! j)))
          = at_block bsz bc blks2 c 0 rp"
        using jump_to_block_at [OF ok2 cw] uc by simp
      have wn: "host_write (le16 (word_of_nat j)) (host_lseek_cur (- 2) (at_block bsz bc blks2 c 0 rp))
          = disk_state bsz bc blks3 (block_pos bsz c 5) (word_of_nat c) 0 rp
              (header_info (blks2 ! c))"
        unfolding blks3_def using ok2 c by (rule write_next)
      have j2: "jump_to_block (word_of_nat j)
            (disk_state bsz bc blks3 (block_pos bsz c 5) (word_of_nat c) 0 rp
               (header_info (blks2 ! c)))
          = at_block bsz bc blks3 j 0 rp"
        using jump_to_block_at [OF ok3 jw] uj by simp
      have step: "write_loop (Suc fuel) buffer n w (at_block bsz bc blks c p rp)
          = write_loop fuel buffer n (w + word_of_nat k) (at_block bsz bc blks3 j 0 rp)"
        unfolding head alloc using jinv by (simp add: j1 wn j2)
      have l2: "length blks2 = unat bc" using ok2 by (simp add: blocks_ok_def)
      have u3: "b_use (blks3 ! j) = 1" and n3: "b_next (blks3 ! j) = INVALID_BLOCK"
        using jc jb c l1 l2 by (simp_all add: blks3_def blks2_def)
      have w3: "unat (w + word_of_nat k) \<le> unat n" using w' km w by simp
      have f3: "(0 + (unat n - unat (w + word_of_nat k))) div unat bsz < fuel"
      proof -
        have e: "p + ?m = (?m - k) + ?N" using kp km by simp
        have "0 < ?N" using p by simp
        then have "((?m - k) + ?N) div ?N = Suc ((?m - k) div ?N)"
          by (rule div_add_self_Suc)
        then have "(p + ?m) div ?N = Suc ((?m - k) div ?N)"
          by (simp only: e)
        then have "(?m - k) div ?N < fuel" using fuel by simp
        moreover have "unat n - unat (w + word_of_nat k) = ?m - k" unfolding w' by simp
        ultimately show ?thesis by simp
      qed
      have p3: "0 < unat bsz" using p by simp
      have d3: "take (unat n - unat (w + word_of_nat k)) (drop (unat (w + word_of_nat k)) buffer)
          = drop k data"
        unfolding w' data_def by (simp add: drop_take add.commute)
      have ih: "write_loop fuel buffer n (w + word_of_nat k) (at_block bsz bc blks3 j 0 rp)
          = (case write_blocks ?N blks3 j 0 (drop k data) of
               (blks', js, Some (c', p'), k') \<Rightarrow> Some (n, at_block bsz bc blks' c' p' (rp + n))
             | (blks', js, None, k') \<Rightarrow>
                 Some (w + word_of_nat k + word_of_nat k', at_block bsz bc blks' (unat bc - 1) 0 rp))"
        using Suc.IH [OF ok3 jb p3 u3 n3 w3 f3] unfolding d3 .
      show ?thesis
        unfolding data_def [symmetric] step ih a
        by (simp add: add.assoc add.commute split: prod.splits option.splits)
    qed
  qed
qed

text \<open>
  A region as the chain of its blocks: \<open>is_chain blks c js\<close> says that the \<open>next\<close> links lead
  from block \<open>c\<close> through the blocks \<open>js\<close> and end there. \<open>read_loop_chain\<close>: reading from
  position \<open>p\<close> of block \<open>c\<close> delivers the payloads of the chain, and stops at its end.
\<close>

fun is_chain :: "block list \<Rightarrow> nat \<Rightarrow> nat list \<Rightarrow> bool" where
  "is_chain blks c [] = (b_next (blks ! c) = INVALID_BLOCK)"
| "is_chain blks c (j # js) =
     (b_next (blks ! c) = word_of_nat j \<and> j < length blks \<and> is_chain blks j js)"

definition chain_bytes :: "block list \<Rightarrow> nat list \<Rightarrow> byte list" where
  "chain_bytes blks cs = concat (map (\<lambda>i. b_payload (blks ! i)) cs)"

lemma chain_bytes_Cons: "chain_bytes blks (c # cs) = b_payload (blks ! c) @ chain_bytes blks cs"
  by (simp add: chain_bytes_def)

lemma chain_bytes_Nil [simp]: "chain_bytes blks [] = []"
  by (simp add: chain_bytes_def)

lemma jump_to_block_from_at:
  assumes "blocks_ok bsz bc blks" "b < bc"
  shows "jump_to_block b (at_block bsz bc blks c p rp) = at_block bsz bc blks (unat b) 0 rp"
  unfolding at_block_def [of bsz bc blks c p rp] using assms by (rule jump_to_block_at)

lemma read_loop_direct:
  assumes ok: "blocks_ok bsz bc blks" and c: "c < unat bc"
    and r: "unat r \<le> unat n" and nb: "unat n < 2 ^ 63"
    and fit: "p + (unat n - unat r) < unat bsz"
  shows "read_loop (Suc fuel) n r buf (at_block bsz bc blks c p rp)
     = Some (buf @ take (unat n - unat r) (drop p (b_payload (blks ! c))), n,
         at_block bsz bc blks c (p + (unat n - unat r)) (rp + n))"
proof -
  let ?m = "unat n - unat r"
  have pb: "p < 65536" using fit unat_bc_bound [of bsz] by simp
  have rem: "unat ((word_of_nat p :: 64 word) + n - r) = p + ?m"
    using pb r nb by (rule unat_remaining)
  have cond: "\<not> (ucast bsz \<le> (word_of_nat p :: 64 word) + n - r)"
    using fit by (simp add: word_le_nat_alt rem unat_ucast_16_64)
  have le: "r \<le> n" using r by (simp add: word_le_nat_alt)
  have m: "unat (n - r) = ?m" using le by (rule unat_sub)
  have hr: "host_read ?m (at_block bsz bc blks c p rp)
      = (take ?m (drop p (b_payload (blks ! c))),
         disk_state bsz bc blks (block_pos bsz c (5 + (p + ?m))) (word_of_nat c) (word_of_nat p) rp
           (header_info (blks ! c)))"
    using fit by (intro host_read_payload [OF ok c]) simp
  have cp: "(word_of_nat p :: 64 word) + (n - r) = word_of_nat (p + ?m)"
  proof -
    have "word_of_nat (p + unat (n - r)) = (word_of_nat p :: 64 word) + (n - r)" by simp
    then show ?thesis using m by simp
  qed
  show ?thesis
    using cond by (simp add: m hr cp) (simp add: at_block_def)
qed

lemma read_loop_chain:
  assumes ok: "blocks_ok bsz bc blks" and c: "c < unat bc" and p: "p < unat bsz"
    and ch: "is_chain blks c js"
    and r: "unat r \<le> unat n" and nb: "unat n < 2 ^ 63" and fuel: "length js < fuel"
  shows "\<exists>count s'. read_loop fuel n r buf (at_block bsz bc blks c p rp)
     = Some (buf @ take (unat n - unat r) (drop p (chain_bytes blks (c # js))), count, s')"
  using c p ch r fuel
proof (induction js arbitrary: c p r buf fuel)
  case Nil
  note c = Nil.prems(1) and p = Nil.prems(2) and ch = Nil.prems(3) and r = Nil.prems(4)
  from Nil.prems(5) obtain f where f: "fuel = Suc f" by (cases fuel) simp_all
  let ?N = "unat bsz" and ?m = "unat n - unat r"
  have pl: "length (b_payload (blks ! c)) = ?N" using ok c by (rule blocks_ok_nth)
  show ?case
  proof (cases "p + ?m < ?N")
    case True
    show ?thesis
      unfolding f read_loop_direct [OF ok c r nb True] using True pl
      by (simp add: chain_bytes_Cons)
  next
    case False
    then have full: "?N \<le> p + ?m" by simp
    define k where "k = ?N - p"
    have pb: "p < 65536" using p unat_bc_bound [of bsz] by simp
    have rem: "unat ((word_of_nat p :: 64 word) + n - r) = p + ?m"
      using pb r nb by (rule unat_remaining)
    have cond: "ucast bsz \<le> (word_of_nat p :: 64 word) + n - r"
      using full by (simp add: word_le_nat_alt rem unat_ucast_16_64)
    have btw: "to_int (uint (ucast bsz - (word_of_nat p :: 64 word))) = int k"
      using rest_of_block [of p bsz] p by (simp add: k_def)
    have kp: "p + k = ?N" and km: "k \<le> ?m" using p full by (simp_all add: k_def)
    have hr: "host_read k (at_block bsz bc blks c p rp)
        = (drop p (b_payload (blks ! c)),
           disk_state bsz bc blks (block_pos bsz c (5 + ?N)) (word_of_nat c) (word_of_nat p) rp
             (header_info (blks ! c)))"
      using host_read_payload [OF ok c, of p k rp] kp pl by simp
    have ld: "length (drop p (b_payload (blks ! c))) = k" using pl by (simp add: k_def)
    have ld': "length (b_payload (blks ! c)) - p = k" using pl by (simp add: k_def)
    have nx: "b_next (blks ! c) = INVALID_BLOCK" using ch by simp
    have res: "take ?m (drop p (chain_bytes blks [c])) = drop p (b_payload (blks ! c))"
      using km ld by (simp add: chain_bytes_Cons)
    show ?thesis
      unfolding f using cond nx
      by (simp add: Let_def btw hr ld' res)
  qed
next
  case (Cons j js)
  note c = Cons.prems(1) and p = Cons.prems(2) and ch = Cons.prems(3) and r = Cons.prems(4)
  from Cons.prems(5) obtain f where f: "fuel = Suc f" and lf: "length js < f"
    by (cases fuel) simp_all
  let ?N = "unat bsz" and ?m = "unat n - unat r"
  have pl: "length (b_payload (blks ! c)) = ?N" using ok c by (rule blocks_ok_nth)
  have l: "length blks = unat bc" using ok by (simp add: blocks_ok_def)
  show ?case
  proof (cases "p + ?m < ?N")
    case True
    show ?thesis
      unfolding f read_loop_direct [OF ok c r nb True] using True pl
      by (simp add: chain_bytes_Cons)
  next
    case False
    then have full: "?N \<le> p + ?m" by simp
    define k where "k = ?N - p"
    have pb: "p < 65536" using p unat_bc_bound [of bsz] by simp
    have rem: "unat ((word_of_nat p :: 64 word) + n - r) = p + ?m"
      using pb r nb by (rule unat_remaining)
    have cond: "ucast bsz \<le> (word_of_nat p :: 64 word) + n - r"
      using full by (simp add: word_le_nat_alt rem unat_ucast_16_64)
    have btw: "to_int (uint (ucast bsz - (word_of_nat p :: 64 word))) = int k"
      using rest_of_block [of p bsz] p by (simp add: k_def)
    have kp: "p + k = ?N" and km: "k \<le> ?m" using p full by (simp_all add: k_def)
    have hr: "host_read k (at_block bsz bc blks c p rp)
        = (drop p (b_payload (blks ! c)),
           disk_state bsz bc blks (block_pos bsz c (5 + ?N)) (word_of_nat c) (word_of_nat p) rp
             (header_info (blks ! c)))"
      using host_read_payload [OF ok c, of p k rp] kp pl by simp
    have ld: "length (drop p (b_payload (blks ! c))) = k" using pl by (simp add: k_def)
    have ld': "length (b_payload (blks ! c)) - p = k" using pl by (simp add: k_def)
    have nx: "b_next (blks ! c) = word_of_nat j" and jl: "j < length blks"
      and ch': "is_chain blks j js"
      using ch by simp_all
    have jb: "j < unat bc" using jl l by simp
    have uj: "unat (word_of_nat j :: 16 word) = j"
      using jb unat_bc_bound [of bc] by (simp add: unat_of_nat_16)
    have jw: "(word_of_nat j :: 16 word) < bc" using jb uj by (simp add: word_less_nat_alt)
    have jinv: "(word_of_nat j :: 16 word) \<noteq> INVALID_BLOCK"
    proof
      assume "(word_of_nat j :: 16 word) = INVALID_BLOCK"
      then have "unat (word_of_nat j :: 16 word) = 65535"
        by (simp add: INVALID_BLOCK_def INVALID_REGION_def)
      then show False using uj jb unat_bc_bound [of bc] by simp
    qed
    have j1: "jump_to_block (word_of_nat j)
          (disk_state bsz bc blks (block_pos bsz c (5 + ?N)) (word_of_nat c) (word_of_nat p) rp
             (header_info (blks ! c)))
        = at_block bsz bc blks j 0 rp"
      using jump_to_block_at [OF ok jw] uj by simp
    have r': "unat (r + word_of_nat k) = unat r + k"
      using km r nb by (intro unat_advance [where n = n]) simp_all
    have step: "read_loop (Suc f) n r buf (at_block bsz bc blks c p rp)
        = read_loop f n (r + word_of_nat k) (buf @ drop p (b_payload (blks ! c)))
            (at_block bsz bc blks j 0 rp)"
      using cond nx jinv by (simp add: Let_def btw hr ld' j1)
    have p0: "0 < unat bsz" using p by simp
    have r3: "unat (r + word_of_nat k) \<le> unat n" using r' km r by simp
    obtain count s' where ih:
      "read_loop f n (r + word_of_nat k) (buf @ drop p (b_payload (blks ! c)))
          (at_block bsz bc blks j 0 rp)
        = Some ((buf @ drop p (b_payload (blks ! c)))
                  @ take (unat n - unat (r + word_of_nat k)) (drop 0 (chain_bytes blks (j # js))),
                count, s')"
      using Cons.IH [OF jb p0 ch' r3 lf] by blast
    have res: "take ?m (drop p (chain_bytes blks (c # j # js)))
        = drop p (b_payload (blks ! c)) @ take (?m - k) (chain_bytes blks (j # js))"
      using ld pl p km by (simp add: chain_bytes_Cons [of blks c])
    have mk: "unat n - unat (r + word_of_nat k) = ?m - k" unfolding r' by simp
    show ?thesis
      unfolding f step ih res mk by simp
  qed
qed

lemma storage_seek_zero:
  "storage_seek_in_region fuel 0 (at_block bsz bc blks c p rp) = Some (rp, at_block bsz bc blks c p rp)"
  by (simp add: storage_seek_in_region_def)

lemma storage_jump_to_region_at:
  assumes "blocks_ok bsz bc blks" "r < bc"
  shows "storage_jump_to_region r (at_block bsz bc blks c p rp) = (0, at_block bsz bc blks (unat r) 0 0)"
  using jump_to_block_from_at [OF assms, of c p rp]
  by (simp add: storage_jump_to_region_def) (simp add: at_block_def)

text \<open>
  What a write at the end of a region leaves behind, in terms of the free blocks (those
  whose \<open>in_use\<close> byte is not 1).
\<close>

definition count_free :: "block list \<Rightarrow> nat" where
  "count_free blks = length (filter (\<lambda>b. b_use b \<noteq> 1) blks)"

lemma count_free_Cons: "count_free (b # bs) = (if b_use b \<noteq> 1 then 1 else 0) + count_free bs"
  by (simp add: count_free_def)

lemma count_free_Nil [simp]: "count_free [] = 0"
  by (simp add: count_free_def)

lemma count_free_update:
  "i < length blks \<Longrightarrow>
     count_free (blks[i := b]) + (if b_use (blks ! i) \<noteq> 1 then 1 else 0)
       = count_free blks + (if b_use b \<noteq> 1 then 1 else 0)"
proof (induction blks arbitrary: i)
  case Nil
  then show ?case by simp
next
  case (Cons a blks)
  show ?case
  proof (cases i)
    case 0
    then show ?thesis by (simp add: count_free_Cons)
  next
    case (Suc i')
    with Cons.prems have "i' < length blks" by simp
    from Cons.IH [OF this] Suc show ?thesis by (simp add: count_free_Cons)
  qed
qed

lemma count_free_update_same:
  "i < length blks \<Longrightarrow> (b_use b \<noteq> 1 \<longleftrightarrow> b_use (blks ! i) \<noteq> 1)
     \<Longrightarrow> count_free (blks[i := b]) = count_free blks"
  using count_free_update [of i blks b] by (simp split: if_splits)

lemma count_free_update_claim:
  "i < length blks \<Longrightarrow> b_use (blks ! i) \<noteq> 1 \<Longrightarrow> b_use b = 1
     \<Longrightarrow> Suc (count_free (blks[i := b])) = count_free blks"
  using count_free_update [of i blks b] by simp

lemma first_free_None_count: "first_free blks = None \<longleftrightarrow> count_free blks = 0"
  by (induction blks) (simp_all add: count_free_Cons)

definition write_blocks_post :: "nat \<Rightarrow> block list \<Rightarrow> nat \<Rightarrow> nat \<Rightarrow> byte list
    \<Rightarrow> block list \<Rightarrow> nat list \<Rightarrow> (nat \<times> nat) option \<Rightarrow> nat \<Rightarrow> bool" where
  "write_blocks_post N blks c p data blks' js fin k \<longleftrightarrow>
     length blks' = length blks
     \<and> (\<forall>i<length blks. length (b_payload (blks' ! i)) = N)
     \<and> is_chain blks' c js
     \<and> (\<forall>j\<in>set js. j < length blks \<and> b_use (blks ! j) \<noteq> 1)
     \<and> (\<forall>i<length blks. i \<notin> set (c # js) \<longrightarrow> blks' ! i = blks ! i)
     \<and> (\<forall>i<length blks. b_use (blks ! i) = 1 \<longrightarrow> b_use (blks' ! i) = 1)
     \<and> k \<le> length data
     \<and> take (p + k) (chain_bytes blks' (c # js)) = take p (b_payload (blks ! c)) @ take k data
     \<and> (fin = None \<longrightarrow> length (chain_bytes blks' (c # js)) = p + k)
     \<and> (fin = None \<longleftrightarrow> N * Suc (count_free blks) \<le> p + length data)
     \<and> (fin \<noteq> None \<longrightarrow> k = length data)
     \<and> (fin = None \<longrightarrow> p + k = N * Suc (count_free blks))
     \<and> (fin \<noteq> None \<longrightarrow> length js = (p + length data) div N)
     \<and> count_free blks' = count_free blks - length js"

lemma write_blocks_postD:
  assumes "write_blocks_post N blks c p data blks' js fin k"
  shows "length blks' = length blks"
    and "\<And>i. i < length blks \<Longrightarrow> length (b_payload (blks' ! i)) = N"
    and "is_chain blks' c js"
    and "\<And>j. j \<in> set js \<Longrightarrow> j < length blks \<and> b_use (blks ! j) \<noteq> 1"
    and "\<And>i. i < length blks \<Longrightarrow> i \<noteq> c \<Longrightarrow> i \<notin> set js \<Longrightarrow> blks' ! i = blks ! i"
    and "\<And>i. i < length blks \<Longrightarrow> b_use (blks ! i) = 1 \<Longrightarrow> b_use (blks' ! i) = 1"
    and "k \<le> length data"
    and "take (p + k) (chain_bytes blks' (c # js)) = take p (b_payload (blks ! c)) @ take k data"
    and "fin = None \<Longrightarrow> length (chain_bytes blks' (c # js)) = p + k"
    and "fin = None \<longleftrightarrow> N * Suc (count_free blks) \<le> p + length data"
    and "fin \<noteq> None \<Longrightarrow> k = length data"
    and "fin = None \<Longrightarrow> p + k = N * Suc (count_free blks)"
    and "fin \<noteq> None \<Longrightarrow> length js = (p + length data) div N"
    and "count_free blks' = count_free blks - length js"
  using assms unfolding write_blocks_post_def by simp_all

lemma write_blocks_post_direct:
  assumes c: "c < length blks" and lens: "\<forall>i<length blks. length (b_payload (blks ! i)) = N"
    and nx: "b_next (blks ! c) = INVALID_BLOCK" and fit: "p + length data < N"
  shows "write_blocks_post N blks c p data (blks[c := put_payload p data (blks ! c)]) []
           (Some (c, p + length data)) (length data)"
proof -
  have pl: "length (b_payload (blks ! c)) = N" using c lens by simp
  have "N \<le> N * Suc (count_free blks)" by simp
  then have nf: "\<not> N * Suc (count_free blks) \<le> p + length data" using fit by linarith
  have d: "(p + length data) div N = 0" using fit by simp
  show ?thesis
    unfolding write_blocks_post_def
    using c lens nx fit pl nf d
    by (simp add: nth_list_update chain_bytes_Cons count_free_update_same)
qed

lemma write_blocks_post_exhausted:
  assumes c: "c < length blks" and lens: "\<forall>i<length blks. length (b_payload (blks ! i)) = N"
    and nx: "b_next (blks ! c) = INVALID_BLOCK" and p: "p < N" and full: "N \<le> p + length data"
    and none: "first_free (blks[c := put_payload p (take (N - p) data) (blks ! c)]) = None"
  shows "write_blocks_post N blks c p data (blks[c := put_payload p (take (N - p) data) (blks ! c)]) []
           None (N - p)"
proof -
  have pl: "length (b_payload (blks ! c)) = N" using c lens by simp
  have lc: "length (take (N - p) data) = N - p" using full by simp
  have cf: "count_free blks = 0"
    using none c by (simp add: first_free_None_count count_free_update_same)
  have l1: "length (take p (b_payload (blks ! c))) = p" using pl p by simp
  show ?thesis
    unfolding write_blocks_post_def
    using c lens nx p full pl cf lc l1
    by (simp add: nth_list_update chain_bytes_Cons count_free_update_same min_absorb2)
qed

lemma write_blocks_post_step:
  assumes c: "c < length blks" and lens: "\<forall>i<length blks. length (b_payload (blks ! i)) = N"
    and use: "b_use (blks ! c) = 1"
    and p: "p < N" and full: "N \<le> p + length data"
    and blks1: "blks1 = blks[c := put_payload p (take (N - p) data) (blks ! c)]"
    and some: "first_free blks1 = Some j"
    and blks2: "blks2 = blks1[j := Block 1 (word_of_nat c) INVALID_BLOCK (b_payload (blks1 ! j))]"
    and blks3: "blks3 = blks2[c := set_next (word_of_nat j) (blks2 ! c)]"
    and post: "write_blocks_post N blks3 j 0 (drop (N - p) data) blks' js fin k"
  shows "write_blocks_post N blks c p data blks' (j # js) fin (k + (N - p))"
proof -
  note ih = write_blocks_postD [OF post]
  have pl: "length (b_payload (blks ! c)) = N" using c lens by simp
  have l1: "length blks1 = length blks" and l2: "length blks2 = length blks"
    and l3: "length blks3 = length blks"
    by (simp_all add: blks1 blks2 blks3)
  from some have j: "j < length blks" and jf1: "b_use (blks1 ! j) \<noteq> 1"
    using l1 by (simp_all add: first_free_Some)
  have jc: "j \<noteq> c" using jf1 use c by (auto simp: blks1)
  have jf: "b_use (blks ! j) \<noteq> 1" using jf1 jc by (simp add: blks1)
  have b3c: "blks3 ! c = set_next (word_of_nat j) (put_payload p (take (N - p) data) (blks ! c))"
    using c jc by (simp add: blks3 blks2 blks1)
  have b3j: "blks3 ! j = Block 1 (word_of_nat c) INVALID_BLOCK (b_payload (blks ! j))"
    using j jc by (simp add: blks3 blks2 blks1)
  have b3o: "\<And>i. i \<noteq> c \<Longrightarrow> i \<noteq> j \<Longrightarrow> blks3 ! i = blks ! i"
    by (simp add: blks3 blks2 blks1)
  have use3: "\<And>i. i < length blks \<Longrightarrow> b_use (blks ! i) = 1 \<Longrightarrow> b_use (blks3 ! i) = 1"
  proof -
    fix i assume i: "i < length blks" and u: "b_use (blks ! i) = 1"
    show "b_use (blks3 ! i) = 1"
    proof (cases "i = c")
      case True
      then show ?thesis using u by (simp add: b3c)
    next
      case False
      then show ?thesis using u jf b3o [of i] by (cases "i = j") simp_all
    qed
  qed
  have cjs: "c \<notin> set js"
  proof
    assume "c \<in> set js"
    then have "b_use (blks3 ! c) \<noteq> 1" using ih(4) by blast
    then show False using use by (simp add: b3c)
  qed
  have jjs: "j \<notin> set js"
  proof
    assume "j \<in> set js"
    then have "b_use (blks3 ! j) \<noteq> 1" using ih(4) by blast
    then show False by (simp add: b3j)
  qed
  have bc: "blks' ! c = blks3 ! c"
    using ih(5) [of c] c jc cjs l3 by simp
  have cf3: "Suc (count_free blks3) = count_free blks"
  proof -
    have "count_free blks1 = count_free blks"
      unfolding blks1 using c by (intro count_free_update_same) simp_all
    moreover have "Suc (count_free blks2) = count_free blks1"
      unfolding blks2 using j l1 jf1 by (intro count_free_update_claim) simp_all
    moreover have "count_free blks3 = count_free blks2"
      unfolding blks3 using c l2 by (intro count_free_update_same) simp_all
    ultimately show ?thesis by simp
  qed
  have kd: "k \<le> length data - (N - p)" using ih(7) by simp
  have plc: "b_payload (blks' ! c) = take p (b_payload (blks ! c)) @ take (N - p) data"
    using pl p full by (simp add: bc b3c)
  have lplc: "length (b_payload (blks' ! c)) = N"
    using ih(2) [of c] c l3 by simp
  have c1: "length blks' = length blks" using ih(1) l3 by simp
  have c2: "\<forall>i<length blks. length (b_payload (blks' ! i)) = N" using ih(2) l3 by simp
  have c3: "is_chain blks' c (j # js)"
    using ih(3) j c1 by (simp add: bc b3c)
  have c4: "\<forall>x\<in>set (j # js). x < length blks \<and> b_use (blks ! x) \<noteq> 1"
  proof
    fix x assume x: "x \<in> set (j # js)"
    show "x < length blks \<and> b_use (blks ! x) \<noteq> 1"
    proof (cases "x = j")
      case True
      then show ?thesis using j jf by simp
    next
      case False
      with x have xs: "x \<in> set js" by simp
      then have x3: "x < length blks3 \<and> b_use (blks3 ! x) \<noteq> 1" using ih(4) by blast
      have "x \<noteq> c" using xs cjs by auto
      then show ?thesis using x3 False b3o [of x] l3 by simp
    qed
  qed
  have c5: "\<forall>i<length blks. i \<notin> set (c # j # js) \<longrightarrow> blks' ! i = blks ! i"
    using ih(5) b3o l3 by simp
  have c6: "\<forall>i<length blks. b_use (blks ! i) = 1 \<longrightarrow> b_use (blks' ! i) = 1"
    using ih(6) use3 l3 by simp
  have c7: "k + (N - p) \<le> length data" using kd full p by simp
  have c8: "take (p + (k + (N - p))) (chain_bytes blks' (c # j # js))
      = take p (b_payload (blks ! c)) @ take (k + (N - p)) data"
  proof -
    have "p + (k + (N - p)) = N + k" using p by simp
    then have "take (p + (k + (N - p))) (chain_bytes blks' (c # j # js))
        = b_payload (blks' ! c) @ take k (chain_bytes blks' (j # js))"
      using lplc by (simp add: chain_bytes_Cons [of blks' c])
    also have "take k (chain_bytes blks' (j # js)) = take k (drop (N - p) data)"
      using ih(8) by simp
    also have "b_payload (blks' ! c) @ take k (drop (N - p) data)
        = take p (b_payload (blks ! c)) @ (take (N - p) data @ take k (drop (N - p) data))"
      by (simp add: plc)
    also have "take (N - p) data @ take k (drop (N - p) data) = take (k + (N - p)) data"
      by (simp only: add.commute [of k "N - p"] take_add)
    finally show ?thesis .
  qed
  have c9: "fin = None \<longrightarrow> length (chain_bytes blks' (c # j # js)) = p + (k + (N - p))"
    using ih(9) lplc p by (auto simp: chain_bytes_Cons [of blks' c])
  have e: "p + length data = (length data - (N - p)) + N" using full p by simp
  have c10: "fin = None \<longleftrightarrow> N * Suc (count_free blks) \<le> p + length data"
    unfolding ih(10) cf3 [symmetric] e by simp
  have c11: "fin \<noteq> None \<longrightarrow> k + (N - p) = length data"
    using ih(11) full p by auto
  have c12: "fin = None \<longrightarrow> p + (k + (N - p)) = N * Suc (count_free blks)"
    using ih(12) cf3 p by auto
  have c13: "fin \<noteq> None \<longrightarrow> length (j # js) = (p + length data) div N"
  proof
    assume "fin \<noteq> None"
    then have "length js = (length data - (N - p)) div N" using ih(13) by simp
    moreover have "((length data - (N - p)) + N) div N = Suc ((length data - (N - p)) div N)"
      using p by (intro div_add_self_Suc) simp
    ultimately show "length (j # js) = (p + length data) div N"
      by (simp only: e) simp
  qed
  have c14: "count_free blks' = count_free blks - length (j # js)"
    using ih(14) cf3 by simp
  show ?thesis
    unfolding write_blocks_post_def
    using c1 c2 c3 c4 c5 c6 c7 c8 c9 c10 c11 c12 c13 c14 by blast
qed

lemma write_blocks_props:
  assumes "write_blocks N blks c p data = (blks', js, fin, k)"
    and "c < length blks" and "p < N"
    and "\<forall>i<length blks. length (b_payload (blks ! i)) = N"
    and "b_use (blks ! c) = 1" and "b_next (blks ! c) = INVALID_BLOCK"
  shows "write_blocks_post N blks c p data blks' js fin k"
  using assms
proof (induction "length data" arbitrary: blks c p data blks' js fin k rule: less_induct)
  case less
  note aw = less.prems(1) and c = less.prems(2) and p = less.prems(3) and lens = less.prems(4)
    and use = less.prems(5) and nx = less.prems(6)
  show ?case
  proof (cases "N \<le> p + length data")
    case False
    then have fit: "p + length data < N" by simp
    have "write_blocks N blks c p data
        = (blks[c := put_payload p data (blks ! c)], [], Some (c, p + length data), length data)"
      using False by (subst write_blocks.simps) simp
    with aw have r: "blks' = blks[c := put_payload p data (blks ! c)]" "js = []"
      "fin = Some (c, p + length data)" "k = length data"
      by auto
    show ?thesis unfolding r using c lens nx fit by (rule write_blocks_post_direct)
  next
    case True
    define blks1 where "blks1 = blks[c := put_payload p (take (N - p) data) (blks ! c)]"
    show ?thesis
    proof (cases "first_free blks1")
      case None
      have "write_blocks N blks c p data = (blks1, [], None, N - p)"
        using True p None by (subst write_blocks.simps) (simp add: blks1_def [symmetric])
      with aw have r: "blks' = blks1" "js = []" "fin = None" "k = N - p"
        by auto
      show ?thesis
        unfolding r blks1_def
        using c lens nx p True None [unfolded blks1_def] by (rule write_blocks_post_exhausted)
    next
      case (Some j)
      define blks2 where "blks2 = blks1[j := Block 1 (word_of_nat c) INVALID_BLOCK (b_payload (blks1 ! j))]"
      define blks3 where "blks3 = blks2[c := set_next (word_of_nat j) (blks2 ! c)]"
      obtain blks'' js' fin' k' where rec:
        "write_blocks N blks3 j 0 (drop (N - p) data) = (blks'', js', fin', k')"
        by (cases "write_blocks N blks3 j 0 (drop (N - p) data)") auto
      have "write_blocks N blks c p data = (blks'', j # js', fin', k' + (N - p))"
        using True p Some rec
        by (subst write_blocks.simps)
          (simp add: Let_def blks1_def [symmetric] blks2_def [symmetric] blks3_def [symmetric])
      with aw have r: "blks' = blks''" "js = j # js'" "fin = fin'" "k = k' + (N - p)"
        by auto
      have l1: "length blks1 = length blks" and l3: "length blks3 = length blks"
        by (simp_all add: blks1_def blks2_def blks3_def)
      from Some have j: "j < length blks" and jf1: "b_use (blks1 ! j) \<noteq> 1"
        using l1 by (simp_all add: first_free_Some)
      have jc: "j \<noteq> c" using jf1 use c by (auto simp: blks1_def)
      have pl: "length (b_payload (blks ! c)) = N" using c lens by simp
      have shorter: "length (drop (N - p) data) < length data" using True p by simp
      have j3: "j < length blks3" using j l3 by simp
      have lens3: "\<forall>i<length blks3. length (b_payload (blks3 ! i)) = N"
      proof (intro allI impI)
        fix i assume "i < length blks3"
        then have i: "i < length blks" using l3 by simp
        show "length (b_payload (blks3 ! i)) = N"
        proof (cases "i = c")
          case True
          then show ?thesis
            using c jc pl p \<open>N \<le> p + length data\<close>
            by (simp add: blks3_def blks2_def blks1_def)
        next
          case False
          then show ?thesis
            using i j lens jc
            by (cases "i = j") (simp_all add: blks3_def blks2_def blks1_def)
        qed
      qed
      have u3: "b_use (blks3 ! j) = 1" and n3: "b_next (blks3 ! j) = INVALID_BLOCK"
        using j jc by (simp_all add: blks3_def blks2_def blks1_def)
      have p0: "0 < N" using p by simp
      have post: "write_blocks_post N blks3 j 0 (drop (N - p) data) blks'' js' fin' k'"
        using less.hyps [OF shorter rec j3 p0 lens3 u3 n3] .
      show ?thesis
        unfolding r
        using c lens use p True blks1_def Some blks2_def blks3_def post
        by (rule write_blocks_post_step)
    qed
  qed
qed

section \<open>A file written and read back (claim C3)\<close>

lemma is_chain_update:
  "i \<notin> set (c # js) \<Longrightarrow> is_chain (blks[i := b]) c js = is_chain blks c js"
  by (induction js arbitrary: c) auto

lemma chain_bytes_update:
  "i \<notin> set cs \<Longrightarrow> chain_bytes (blks[i := b]) cs = chain_bytes blks cs"
  by (induction cs) (auto simp: chain_bytes_Cons)

lemma length_chain_bytes:
  "\<forall>i\<in>set cs. length (b_payload (blks ! i)) = N \<Longrightarrow> length (chain_bytes blks cs) = N * length cs"
  by (induction cs) (auto simp: chain_bytes_Cons)

text \<open>
  The three calls of the round trip on an open descriptor: write \<open>B\<close>, seek to offset 0, read
  \<open>|B|\<close> bytes. The result is what the read delivers.
\<close>

definition write_seek_read :: "nat \<Rightarrow> int \<Rightarrow> byte list \<Rightarrow> fs_state \<Rightarrow> byte list option" where
  "write_seek_read fuel fd B f =
     do {
       (_, f2) \<leftarrow> write_virtual fuel fd B (word_of_nat (length B)) f;
       let (_, f3) = seek_virtual fd 0 SEEK_SET f2;
       (buffer, _, _) \<leftarrow> read_virtual fuel fd (word_of_nat (length B)) f3;
       Some buffer
     }"

lemma write_blocks_post_count:
  assumes "write_blocks_post N blks c 0 data blks' js fin k"
  shows "k = min (length data) (N * Suc (count_free blks))"
proof (cases fin)
  case None
  note pr = write_blocks_postD [OF assms]
  have "k = N * Suc (count_free blks)" using pr(12) [OF None] by simp
  moreover have "k \<le> length data" by (rule pr(7))
  ultimately show ?thesis by simp
next
  case (Some a)
  note pr = write_blocks_postD [OF assms]
  have "k = length data" using pr(11) Some by simp
  moreover have "\<not> N * Suc (count_free blks) \<le> length data" using pr(10) Some by simp
  ultimately show ?thesis by simp
qed

lemma jump_to_fresh_file:
  assumes ok: "blocks_ok bsz bc blks" and cr: "content < bc"
    and fd: "0 \<le> fd"
    and d: "d (nat fd) = Some \<lparr>content_region = content, metadata_region = meta,
                                   file_length = len, reader_position = 0\<rparr>"
  shows "jump_to_file_if_needed fuel fd
           \<lparr>descriptors = d, last_used_descriptor = - 1, engine = at_block bsz bc blks c p rp\<rparr>
         = Some \<lparr>descriptors = d, last_used_descriptor = fd,
                  engine = at_block bsz bc blks (unat content) 0 0\<rparr>"
  using fd d
  by (simp add: jump_to_file_if_needed_def storage_jump_to_region_at [OF ok cr] storage_seek_zero)

lemma engine_write_fresh:
  assumes ok: "blocks_ok bsz bc blks" and C: "C < unat bc"
    and cu: "b_use (blks ! C) = 1" and cn: "b_next (blks ! C) = INVALID_BLOCK"
    and N0: "0 < unat bsz"
    and lb: "length B < 2 ^ 62"
    and fuel: "length B div unat bsz < fuel"
  obtains blks' js fin k cx px rx where
    "write_blocks_post (unat bsz) blks C 0 B blks' js fin k"
    "storage_write_in_region fuel B (word_of_nat (length B)) (at_block bsz bc blks C 0 rp)
       = Some (word_of_nat k, at_block bsz bc blks' cx px rx)"
proof -
  let ?N = "unat bsz"
  define n :: size_t where "n = word_of_nat (length B)"
  have un: "unat n = length B" using lb by (simp add: n_def unat_of_nat)
  have nb: "unat n < 2 ^ 63" using un lb by simp
  have l: "length blks = unat bc" using ok by (simp add: blocks_ok_def)
  have lens: "\<forall>i<length blks. length (b_payload (blks ! i)) = ?N"
    using ok by (simp add: blocks_ok_def list_all_length)
  obtain blks' js fin k where aw: "write_blocks ?N blks C 0 B = (blks', js, fin, k)"
    by (cases "write_blocks ?N blks C 0 B") auto
  have post: "write_blocks_post ?N blks C 0 B blks' js fin k"
    using aw C [unfolded l [symmetric]] N0 lens cu cn by (rule write_blocks_props)
  note pr = write_blocks_postD [OF post]
  have wl: "write_loop fuel B n 0 (at_block bsz bc blks C 0 rp)
      = (case write_blocks ?N blks C 0 (take (unat n - unat (0 :: size_t)) (drop (unat (0 :: size_t)) B)) of
           (blks', js, Some (c', p'), k) \<Rightarrow> Some (n, at_block bsz bc blks' c' p' (rp + n))
         | (blks', js, None, k) \<Rightarrow>
             Some (0 + word_of_nat k, at_block bsz bc blks' (unat bc - 1) 0 rp))"
    using ok C N0 cu cn _ _ nb
  proof (rule write_loop_write_blocks)
    show "unat (0 :: size_t) \<le> unat n" by simp
    show "unat n \<le> length B" using un by simp
    show "(0 + (unat n - unat (0 :: size_t))) div ?N < fuel" using fuel un by simp
  qed
  have "\<exists>cx px rx. storage_write_in_region fuel B n (at_block bsz bc blks C 0 rp)
      = Some (word_of_nat k, at_block bsz bc blks' cx px rx)"
  proof (cases fin)
    case None
    then show ?thesis using wl un aw by (auto simp: storage_write_in_region_def)
  next
    case (Some a)
    then have "k = length B" using pr(11) by simp
    then have "word_of_nat k = n" by (simp add: n_def)
    then show ?thesis using wl un aw Some by (cases a) (auto simp: storage_write_in_region_def)
  qed
  then show ?thesis using that post unfolding n_def by blast
qed

lemma write_virtual_fresh:
  fixes content meta :: storage_region
  assumes ok: "blocks_ok bsz bc blks"
    and cr: "content < bc" and mr: "meta < bc" and cm: "content \<noteq> meta"
    and cu: "b_use (blks ! unat content) = 1" and cn: "b_next (blks ! unat content) = INVALID_BLOCK"
    and mu: "b_use (blks ! unat meta) = 1"
    and N: "8 < unat bsz"
    and fd: "0 \<le> fd" "fd < 256"
    and d: "d (nat fd) = Some \<lparr>content_region = content, metadata_region = meta,
                                   file_length = 0, reader_position = 0\<rparr>"
    and lb: "length B < 2 ^ 62"
    and fuel: "length B div unat bsz < fuel"
  obtains blks'' js where
    "write_virtual fuel fd B (word_of_nat (length B))
         \<lparr>descriptors = d, last_used_descriptor = - 1, engine = at_block bsz bc blks c p rp\<rparr>
       = Some (word_of_nat (length B),
           \<lparr>descriptors = d(nat fd \<mapsto> \<lparr>content_region = content, metadata_region = meta,
                file_length = word_of_nat (length B) + 1, reader_position = word_of_nat (length B)\<rparr>),
            last_used_descriptor = - 1, engine = at_block bsz bc blks'' (unat meta) 8 8\<rparr>)"
    "blocks_ok bsz bc blks''" "is_chain blks'' (unat content) js"
    "length js \<le> length B div unat bsz"
    "take (length B) (chain_bytes blks'' (unat content # js))
       = take (min (length B) (unat bsz * Suc (count_free blks))) B"
proof -
  let ?N = "unat bsz"
  let ?C = "unat content" and ?M = "unat meta"
  define n :: size_t where "n = word_of_nat (length B)"
  obtain f' where f': "fuel = Suc f'" using fuel by (cases fuel) simp_all
  have l: "length blks = unat bc" using ok by (simp add: blocks_ok_def)
  have C: "?C < unat bc" and M: "?M < unat bc" using cr mr by (simp_all add: word_less_nat_alt)
  have CM: "?C \<noteq> ?M" using cm by (simp add: word_unat_eq_iff)
  have N0: "0 < ?N" using N by simp
  let ?f = "\<lparr>descriptors = d, last_used_descriptor = - 1, engine = at_block bsz bc blks c p rp\<rparr>"
  have valid: "valid_descriptor ?f fd"
    using fd d by (simp add: valid_descriptor_def MAX_DESCRIPTORS_def)
  have jump1: "jump_to_file_if_needed fuel fd ?f
      = Some \<lparr>descriptors = d, last_used_descriptor = fd, engine = at_block bsz bc blks ?C 0 0\<rparr>"
    using ok cr fd(1) d by (rule jump_to_fresh_file)
  obtain blks' js fin k cx px rx where
    post: "write_blocks_post ?N blks ?C 0 B blks' js fin k"
    and wr: "storage_write_in_region fuel B n (at_block bsz bc blks ?C 0 0)
       = Some (word_of_nat k, at_block bsz bc blks' cx px rx)"
    unfolding n_def using ok C cu cn N0 lb fuel by (rule engine_write_fresh)
  note pr = write_blocks_postD [OF post]
  have l': "length blks' = unat bc" using pr(1) l by simp
  have ok': "blocks_ok bsz bc blks'"
    using l' pr(2) l ok by (simp add: blocks_ok_def list_all_length)
  define blks'' where "blks'' = blks'[?M := put_payload 0 (le64 (n + 1)) (blks' ! ?M)]"
  have l64: "length (le64 w) = 8" for w by (simp add: le64_def)
  have meta_write: "storage_write_in_region fuel (le64 (n + 1)) 8
        (snd (storage_jump_to_region meta (at_block bsz bc blks' cx px rx)))
      = Some (8, at_block bsz bc blks'' ?M 8 8)"
  proof -
    have "write_loop (Suc f') (le64 (n + 1)) 8 0 (at_block bsz bc blks' ?M 0 0)
        = Some (8, at_block bsz bc
            (blks'[?M := put_payload 0
               (take (unat (8 :: size_t) - unat (0 :: size_t)) (drop (unat (0 :: size_t)) (le64 (n + 1))))
               (blks' ! ?M)])
            ?M (0 + (unat (8 :: size_t) - unat (0 :: size_t))) (0 + 8))"
      using ok' M
    proof (rule write_loop_direct)
      show "unat (0 :: size_t) \<le> unat (8 :: size_t)" by simp
      show "unat (8 :: size_t) \<le> length (le64 (n + 1))" by (simp add: l64)
      show "unat (8 :: size_t) < 2 ^ 63" by simp
      show "0 + (unat (8 :: size_t) - unat (0 :: size_t)) < ?N" using N by simp
    qed
    then show ?thesis
      by (simp add: storage_write_in_region_def storage_jump_to_region_at [OF ok' mr] f' l64
          blks''_def)
  qed
  let ?file2 = "\<lparr>content_region = content, metadata_region = meta,
                 file_length = n + 1, reader_position = n\<rparr>"
  have wv: "write_virtual fuel fd B n ?f
      = Some (n, \<lparr>descriptors = d(nat fd \<mapsto> ?file2), last_used_descriptor = - 1,
                  engine = at_block bsz bc blks'' ?M 8 8\<rparr>)"
    using valid d
    by (simp add: write_virtual_def jump1 wr update_virtual_file_metadata_def meta_write
        invalidate_last_descriptor_def Let_def)
  have ok'': "blocks_ok bsz bc blks''"
    unfolding blks''_def using ok' M by (intro blocks_ok_put_payload) (simp_all add: l64 N less_imp_le)
  have Mjs: "?M \<notin> set (?C # js)"
  proof -
    have "?M \<notin> set js"
    proof
      assume "?M \<in> set js"
      then have "b_use (blks ! ?M) \<noteq> 1" using pr(4) by blast
      then show False using mu by simp
    qed
    then show ?thesis using CM by simp
  qed
  have ch: "is_chain blks'' ?C js"
    unfolding blks''_def using pr(3) is_chain_update [OF Mjs, of blks'] by blast
  have cb: "chain_bytes blks'' (?C # js) = chain_bytes blks' (?C # js)"
    unfolding blks''_def using Mjs by (rule chain_bytes_update)
  have len_js: "length js \<le> length B div ?N"
  proof (cases fin)
    case (Some a)
    then show ?thesis using pr(13) by simp
  next
    case None
    have "\<forall>i\<in>set (?C # js). length (b_payload (blks' ! i)) = ?N"
      using pr(2) pr(4) C l by auto
    then have "length (chain_bytes blks' (?C # js)) = ?N * length (?C # js)"
      by (rule length_chain_bytes)
    then have "?N * Suc (length js) = k" using pr(9) [OF None] by simp
    then have "?N * Suc (length js) \<le> length B" using pr(7) by simp
    then have "Suc (length js) \<le> length B div ?N"
      using N0 by (simp add: less_eq_div_iff_mult_less_eq mult.commute)
    then show ?thesis by simp
  qed
  have kk: "k = min (length B) (?N * Suc (count_free blks))"
    using post by (rule write_blocks_post_count)
  have res: "take (length B) (chain_bytes blks' (?C # js))
      = take (min (length B) (?N * Suc (count_free blks))) B"
  proof (cases fin)
    case (Some a)
    then have k: "k = length B" using pr(11) by simp
    show ?thesis using pr(8) k kk by simp
  next
    case None
    have kl: "k \<le> length B" by (rule pr(7))
    have lc: "length (chain_bytes blks' (?C # js)) = k" using pr(9) [OF None] by simp
    have "take (length B) (chain_bytes blks' (?C # js)) = chain_bytes blks' (?C # js)"
      using lc kl by simp
    also have "\<dots> = take k (chain_bytes blks' (?C # js))" using lc by simp
    also have "\<dots> = take k B" using pr(8) by simp
    finally show ?thesis using kk by simp
  qed
  show ?thesis
    using that [of blks'' js] wv ok'' ch len_js res cb unfolding n_def by simp
qed

lemma write_seek_read_back:
  fixes content meta :: storage_region
  assumes ok: "blocks_ok bsz bc blks"
    and cr: "content < bc" and mr: "meta < bc" and cm: "content \<noteq> meta"
    and cu: "b_use (blks ! unat content) = 1" and cn: "b_next (blks ! unat content) = INVALID_BLOCK"
    and mu: "b_use (blks ! unat meta) = 1"
    and N: "8 < unat bsz"
    and fd: "0 \<le> fd" "fd < 256"
    and d: "d (nat fd) = Some \<lparr>content_region = content, metadata_region = meta,
                                   file_length = 0, reader_position = 0\<rparr>"
    and lb: "length B < 2 ^ 62"
    and fuel: "length B div unat bsz < fuel"
  shows "write_seek_read fuel fd B
           \<lparr>descriptors = d, last_used_descriptor = - 1, engine = at_block bsz bc blks c p rp\<rparr>
         = Some (take (min (length B) (unat bsz * Suc (count_free blks))) B)"
proof -
  let ?N = "unat bsz"
  let ?C = "unat content" and ?M = "unat meta"
  define n :: size_t where "n = word_of_nat (length B)"
  have un: "unat n = length B" using lb by (simp add: n_def unat_of_nat)
  have nb: "unat n < 2 ^ 63" using un lb by simp
  have C: "?C < unat bc" using cr by (simp add: word_less_nat_alt)
  have N0: "0 < ?N" using N by simp
  let ?f = "\<lparr>descriptors = d, last_used_descriptor = - 1, engine = at_block bsz bc blks c p rp\<rparr>"
  let ?file2 = "\<lparr>content_region = content, metadata_region = meta,
                 file_length = n + 1, reader_position = n\<rparr>"
  obtain blks'' js where
    wv: "write_virtual fuel fd B n ?f
       = Some (n, \<lparr>descriptors = d(nat fd \<mapsto> ?file2), last_used_descriptor = - 1,
                   engine = at_block bsz bc blks'' ?M 8 8\<rparr>)"
    and ok'': "blocks_ok bsz bc blks''" and ch: "is_chain blks'' ?C js"
    and len_js: "length js \<le> length B div ?N"
    and res: "take (length B) (chain_bytes blks'' (?C # js))
       = take (min (length B) (?N * Suc (count_free blks))) B"
    unfolding n_def using assms by (rule write_virtual_fresh [where c = c and p = p and rp = rp])
  let ?f2 = "\<lparr>descriptors = d(nat fd \<mapsto> ?file2), last_used_descriptor = - 1,
                  engine = at_block bsz bc blks'' ?M 8 8\<rparr>"
  let ?file3 = "\<lparr>content_region = content, metadata_region = meta,
                 file_length = n + 1, reader_position = 0 :: size_t\<rparr>"
  let ?f3 = "\<lparr>descriptors = d(nat fd \<mapsto> ?file3), last_used_descriptor = - 1,
                  engine = at_block bsz bc blks'' ?M 8 8\<rparr>"
  have sk: "seek_virtual fd 0 SEEK_SET ?f2 = (0, ?f3)"
    using fd by (simp add: seek_virtual_def valid_descriptor_def MAX_DESCRIPTORS_def SEEK_SET_def)
  have jump2: "jump_to_file_if_needed fuel fd ?f3
      = Some \<lparr>descriptors = d(nat fd \<mapsto> ?file3), last_used_descriptor = fd,
               engine = at_block bsz bc blks'' ?C 0 0\<rparr>"
    using ok'' cr fd(1) by (rule jump_to_fresh_file) simp
  have fuel_js: "length js < fuel" using len_js fuel by simp
  obtain count s' where rd: "read_loop fuel n 0 [] (at_block bsz bc blks'' ?C 0 0)
      = Some ([] @ take (unat n - unat (0 :: size_t)) (drop 0 (chain_bytes blks'' (?C # js))), count, s')"
    using read_loop_chain [OF ok'' C N0 ch _ nb fuel_js, of 0 "[]" 0] by auto
  have nle: "\<not> (n + 1 < n)"
  proof -
    have "unat n + unat (1 :: size_t) < 2 ^ LENGTH(64)" using nb by simp
    then have "unat (n + 1) = unat n + unat (1 :: size_t)"
      using unat_add_lem [of n 1] by blast
    then have "unat (n + 1) = unat n + 1" by simp
    then show ?thesis by (simp add: word_less_nat_alt)
  qed
  have rv: "read_virtual fuel fd n ?f3
      = Some (take (length B) (chain_bytes blks'' (?C # js)), n,
          \<lparr>descriptors = (d(nat fd \<mapsto> ?file3))(nat fd \<mapsto> ?file3\<lparr>reader_position := 0 + n\<rparr>),
           last_used_descriptor = fd, engine = s'\<rparr>)"
    using fd nle
    by (simp add: read_virtual_def valid_descriptor_def MAX_DESCRIPTORS_def jump2
        storage_read_in_region_def rd un Let_def)
  show ?thesis
    unfolding write_seek_read_def n_def [symmetric]
    by (simp add: wv sk rv res)
qed

lemma navigate_path_plain:
  "slash \<notin> set cs \<Longrightarrow> navigate_path fuel cs name r s = Some ((name @ cs, r), s)"
  by (induction cs arbitrary: name) auto

lemma path_length_small: "length name \<le> 127 \<Longrightarrow> path_length name = word_of_nat (length name)"
  by (simp add: path_length_def signed_of_nat signed_take_bit_int_eq_self)

lemmas fs_eval = invalid_file_def navigate_to_virtual_directory_def
  find_virtual_file_def write_entry_def invalidate_last_descriptor_def
  valid_descriptor_def initial_fs_def

lemmas sym_eval = consts_defs enc_defs engine_defs fs_eval Let_def
  allocate_block_from.simps jump_to_block_state host_read_at host_write_at host_lseek_cur_state
  blocks_ok_def block_pos_def patch_block_def parse_block_def render_block_def header_info_def
  update_replicate word_le_nat_alt word_less_nat_alt
  first_free_slot.simps(2) [of _ _ "pred_numeral k" for k, folded numeral_eq_Suc]

text \<open>
  The blocks of a fresh backing file in which \<open>create_virtual_file\<close> has allocated the
  content region (block 1) and the metadata region (block 2) of a file, written its entry
  into the root directory, and the length 0 and the length of the name into the metadata;
  the name itself follows.
\<close>

definition created_blocks :: "nat \<Rightarrow> block list" where
  "created_blocks L =
     Block 1 65535 65535 (2 # 2 # 0 # 1 # 0 # replicate 5 0) #
     Block 1 65535 65535 (replicate 10 0) #
     Block 1 65535 65535 [0, 0, 0, 0, 0, 0, 0, 0, word_of_nat L, 0] #
     replicate 125 (Block 0 65535 65535 (replicate 10 0))"

lemma created_blocks_facts:
  "blocks_ok 10 128 (created_blocks L)"
  "length (created_blocks L) = 128"
  "\<forall>i<length (created_blocks L). length (b_payload (created_blocks L ! i)) = 10"
  "b_use (created_blocks L ! 1) = 1"
  "b_next (created_blocks L ! 1) = INVALID_BLOCK"
  "b_use (created_blocks L ! 2) = 1"
  "b_next (created_blocks L ! 2) = INVALID_BLOCK"
  "count_free (created_blocks L) = 125"
proof -
  show ok: "blocks_ok 10 128 (created_blocks L)"
    by (simp add: blocks_ok_def created_blocks_def)
  then show "\<forall>i<length (created_blocks L). length (b_payload (created_blocks L ! i)) = 10"
    by (simp add: blocks_ok_def list_all_length)
  show "length (created_blocks L) = 128" using ok by (simp add: blocks_ok_def)
  show "b_use (created_blocks L ! 1) = 1" "b_next (created_blocks L ! 1) = INVALID_BLOCK"
    "b_use (created_blocks L ! 2) = 1" "b_next (created_blocks L ! 2) = INVALID_BLOCK"
    by (simp_all add: created_blocks_def INVALID_BLOCK_def INVALID_REGION_def)
  show "count_free (created_blocks L) = 125"
    by (simp add: created_blocks_def count_free_def)
qed

lemma open_fresh:
  assumes sl: "slash \<notin> set (c_str path)" and L: "length (c_str path) \<le> 127"
    and fuel: "14 \<le> fuel"
  shows "\<exists>blks c p rp.
     open_virtual fuel path O_CREAT (initial_fs None)
       = Some (0, \<lparr>descriptors = (\<lambda>_. None)(0 \<mapsto> \<lparr>content_region = 1, metadata_region = 2,
                                                      file_length = 0, reader_position = 0\<rparr>),
                   last_used_descriptor = - 1, engine = at_block 10 128 blks c p rp\<rparr>)
     \<and> blocks_ok 10 128 blks
     \<and> b_use (blks ! 1) = 1 \<and> b_next (blks ! 1) = INVALID_BLOCK \<and> b_use (blks ! 2) = 1
     \<and> count_free blks = 125 - (9 + length (c_str path)) div 10"
proof -
  define name where "name = c_str path"
  let ?L = "length name"
  obtain f where f: "fuel = Suc f" using fuel by (cases fuel) simp_all
  define W where "W = (\<lambda>nm. storage_write_in_region (Suc f) nm (path_length nm))"
  have foldW: "\<And>nm s. storage_write_in_region (Suc f) nm (path_length nm) s = W nm s"
    by (simp add: W_def)
  note cf = created_blocks_facts [of ?L]
  obtain blks js fin k where aw: "write_blocks 10 (created_blocks ?L) 2 9 name = (blks, js, fin, k)"
    by (cases "write_blocks 10 (created_blocks ?L) 2 9 name") auto
  have post: "write_blocks_post 10 (created_blocks ?L) 2 9 name blks js fin k"
    using aw by (rule write_blocks_props) (simp_all add: cf)
  note pr = write_blocks_postD [OF post]
  have L': "?L \<le> 127" using L by (simp add: name_def)
  have sl': "slash \<notin> set name" using sl by (simp add: name_def)
  have "\<not> 10 * Suc (count_free (created_blocks ?L)) \<le> 9 + ?L"
    using L' by (simp add: cf)
  then have fin: "fin \<noteq> None" using pr(10) by simp
  then obtain c p where fin': "fin = Some (c, p)" by (cases fin) auto
  have un: "unat (word_of_nat ?L :: size_t) = ?L" using L' by (simp add: unat_of_nat)
  have st: "disk_state 10 128 (created_blocks ?L) 48 2 9 9
        \<lparr>in_use = 1, previous_block = 65535, next_block = 65535\<rparr>
      = at_block 10 128 (created_blocks ?L) 2 9 9"
    by (simp add: at_block_def block_pos_def created_blocks_def header_info_def)
  have "write_loop (Suc f) name (word_of_nat ?L) 0 (at_block 10 128 (created_blocks ?L) 2 9 9)
      = (case write_blocks (unat (10 :: 16 word)) (created_blocks ?L) 2 9
                (take (unat (word_of_nat ?L :: size_t) - unat (0 :: size_t))
                   (drop (unat (0 :: size_t)) name)) of
           (blks', js, Some (c', p'), k) \<Rightarrow>
             Some (word_of_nat ?L, at_block 10 128 blks' c' p' (9 + word_of_nat ?L))
         | (blks', js, None, k) \<Rightarrow>
             Some (0 + word_of_nat k, at_block 10 128 blks' (unat (128 :: 16 word) - 1) 0 9))"
  proof (rule write_loop_write_blocks)
    show "blocks_ok 10 128 (created_blocks ?L)" by (rule cf)
    show "2 < unat (128 :: 16 word)" by simp
    show "9 < unat (10 :: 16 word)" by simp
    show "b_use (created_blocks ?L ! 2) = 1" by (rule cf)
    show "b_next (created_blocks ?L ! 2) = INVALID_BLOCK" by (rule cf)
    show "unat (0 :: size_t) \<le> unat (word_of_nat ?L :: size_t)" by simp
    show "unat (word_of_nat ?L :: size_t) \<le> length name" using un by simp
    show "unat (word_of_nat ?L :: size_t) < 2 ^ 63" using un L' by simp
    show "(9 + (unat (word_of_nat ?L :: size_t) - unat (0 :: size_t))) div unat (10 :: 16 word) < Suc f"
      using un L' fuel f by simp
  qed
  then have Wn: "W name (disk_state 10 128 (created_blocks ?L) 48 2 9 9
        \<lparr>in_use = 1, previous_block = 65535, next_block = 65535\<rparr>)
      = Some (word_of_nat ?L, at_block 10 128 blks c p (9 + word_of_nat ?L))"
    unfolding st using un aw fin' L'
    by (simp add: W_def storage_write_in_region_def path_length_small)
  have op: "open_virtual (Suc f) path O_CREAT (initial_fs None)
      = Some (0, \<lparr>descriptors = (\<lambda>_. None)(0 \<mapsto> \<lparr>content_region = 1, metadata_region = 2,
                                                      file_length = 0, reader_position = 0\<rparr>),
                   last_used_descriptor = - 1,
                   engine = at_block 10 128 blks c p (9 + word_of_nat ?L)\<rparr>)"
    unfolding open_virtual_def create_virtual_file_def
    apply (simp only: foldW)
    apply (simp add: sym_eval not_set_iff to_int_def fresh_state navigate_path_plain [OF sl']
        name_def [symmetric] Wn [unfolded created_blocks_def])
    done
  have l: "length blks = 128" using pr(1) cf(2) by simp
  have ok: "blocks_ok 10 128 blks"
    using l pr(2) cf(2) cf(1) by (simp add: blocks_ok_def list_all_length)
  have njs: "1 \<notin> set js"
  proof
    assume "1 \<in> set js"
    then have "b_use (created_blocks ?L ! 1) \<noteq> 1" using pr(4) by blast
    then show False using cf(4) by simp
  qed
  have b1: "blks ! 1 = created_blocks ?L ! 1"
    using pr(5) [of 1] njs cf(2) by simp
  have u2: "b_use (blks ! 2) = 1" using pr(6) [of 2] cf by simp
  have cnt: "count_free blks = 125 - (9 + ?L) div 10"
    using pr(13) [OF fin] pr(14) cf(8) by simp
  have u1: "b_use (blks ! 1) = 1" and n1: "b_next (blks ! 1) = INVALID_BLOCK"
    using b1 cf(4,5) by simp_all
  have "open_virtual fuel path O_CREAT (initial_fs None)
       = Some (0, \<lparr>descriptors = (\<lambda>_. None)(0 \<mapsto> \<lparr>content_region = 1, metadata_region = 2,
                                                      file_length = 0, reader_position = 0\<rparr>),
                   last_used_descriptor = - 1,
                   engine = at_block 10 128 blks c p (9 + word_of_nat ?L)\<rparr>)
     \<and> blocks_ok 10 128 blks
     \<and> b_use (blks ! 1) = 1 \<and> b_next (blks ! 1) = INVALID_BLOCK \<and> b_use (blks ! 2) = 1
     \<and> count_free blks = 125 - (9 + length (c_str path)) div 10"
    using op ok u1 n1 u2 cnt unfolding f name_def by simp
  then show ?thesis by blast
qed

text \<open>
  The round trip of the claim: on a backing file that does not exist yet (it is created with
  10-byte blocks, 128 of them), create the file \<open>path\<close>, write \<open>B\<close>, seek to 0 and read \<open>|B|\<close>
  bytes.
\<close>

definition round_trip :: "nat \<Rightarrow> byte list \<Rightarrow> byte list \<Rightarrow> byte list option" where
  "round_trip fuel path B =
     do {
       (fd, f) \<leftarrow> open_virtual fuel path O_CREAT (initial_fs None);
       write_seek_read fuel fd B f
     }"

text \<open>
  What the round trip delivers, for every name without a slash of at most 127 bytes: the
  content region holds block 1 and every block that is free once the file exists, and the
  metadata region has taken \<open>1 + (9 + |name|) div 10\<close> blocks.
\<close>

lemma round_trip_result:
  assumes sl: "slash \<notin> set (c_str path)" and L: "length (c_str path) \<le> 127"
    and fuel: "14 \<le> fuel" "length B div 10 < fuel" and lb: "length B < 2 ^ 62"
  shows "round_trip fuel path B
     = Some (take (min (length B) (10 * (126 - (9 + length (c_str path)) div 10))) B)"
proof -
  let ?d = "(\<lambda>_. None)(0 \<mapsto> \<lparr>content_region = 1, metadata_region = 2,
                                 file_length = 0, reader_position = 0 :: size_t\<rparr>)"
  obtain blks c p rp where
    op: "open_virtual fuel path O_CREAT (initial_fs None)
       = Some (0, \<lparr>descriptors = ?d, last_used_descriptor = - 1,
                   engine = at_block 10 128 blks c p rp\<rparr>)"
    and ok: "blocks_ok 10 128 blks"
    and u1: "b_use (blks ! 1) = 1" and n1: "b_next (blks ! 1) = INVALID_BLOCK"
    and u2: "b_use (blks ! 2) = 1"
    and cnt: "count_free blks = 125 - (9 + length (c_str path)) div 10"
    using open_fresh [OF sl L fuel(1)] by blast
  have "write_seek_read fuel 0 B
          \<lparr>descriptors = ?d, last_used_descriptor = - 1, engine = at_block 10 128 blks c p rp\<rparr>
      = Some (take (min (length B) (unat (10 :: 16 word) * Suc (count_free blks))) B)"
  proof (rule write_seek_read_back [where content = 1 and meta = 2])
    show "blocks_ok 10 128 blks" by (rule ok)
    show "(1 :: storage_region) < 128" "(2 :: storage_region) < 128" "(1 :: storage_region) \<noteq> 2"
      by simp_all
    show "b_use (blks ! unat (1 :: storage_region)) = 1" using u1 by simp
    show "b_next (blks ! unat (1 :: storage_region)) = INVALID_BLOCK" using n1 by simp
    show "b_use (blks ! unat (2 :: storage_region)) = 1" using u2 by simp
    show "8 < unat (10 :: 16 word)" by simp
    show "(0 :: int) \<le> 0" "(0 :: int) < 256" by simp_all
    show "?d (nat 0) = Some \<lparr>content_region = 1, metadata_region = 2,
                              file_length = 0, reader_position = 0\<rparr>"
      by simp
    show "length B < 2 ^ 62" by (rule lb)
    show "length B div unat (10 :: 16 word) < fuel" using fuel(2) by simp
  qed
  moreover have "unat (10 :: 16 word) * Suc (count_free blks)
      = 10 * (126 - (9 + length (c_str path)) div 10)"
    using L by (simp add: cnt)
  ultimately show ?thesis
    by (simp add: round_trip_def op)
qed

text \<open>
  C3 (amended). For every byte sequence \<open>B\<close> and every file name of at most 127 bytes without
  a slash, with \<open>|B| \<le> 10 * (126 - (9 + |name|) div 10)\<close> (so for every \<open>B\<close> of at most 1152
  bytes when the name has at most 100 bytes): creating the file on a freshly formatted backing
  file, writing \<open>B\<close>, seeking back to offset 0 and reading \<open>|B|\<close> bytes returns, and yields
  exactly \<open>B\<close>.
\<close>

theorem round_trip_returns_bytes:
  assumes "slash \<notin> set (c_str path)" and "length (c_str path) \<le> 127"
    and "length B \<le> 10 * (126 - (9 + length (c_str path)) div 10)"
    and "130 \<le> fuel"
  shows "round_trip fuel path B = Some B"
proof -
  have "length B \<le> 1260" using assms(3) by simp
  then have "length B div 10 < fuel" "length B < 2 ^ 62" "14 \<le> fuel"
    using assms(4) by simp_all
  then show ?thesis
    using round_trip_result [OF assms(1,2), of fuel B] assms(3) by (simp add: min_absorb1)
qed

text \<open>The witness: the file \<open>a\<close> and two bytes.\<close>

theorem round_trip_returns_bytes_witness:
  "slash \<notin> set (c_str [97]) \<and> length (c_str [97]) \<le> 127
   \<and> length [104 :: byte, 105] \<le> 10 * (126 - (9 + length (c_str [97])) div 10)
   \<and> (130 :: nat) \<le> 130
   \<and> round_trip 130 [97] [104, 105] = Some [104, 105]"
  using round_trip_returns_bytes [of "[97]" "[104, 105]" 130]
  by (simp add: c_str_def slash_def)

text \<open>
  C3 as stated fails: with a name of 101 bytes the metadata region takes 12 blocks, 115 blocks
  remain for the content, and of 1152 bytes written (the bound of the claim, 10 * 128 * 0.9)
  only the first 1150 come back.
\<close>

theorem round_trip_long_name_counterexample:
  "length (replicate 1152 (120 :: byte)) \<le> 1152
   \<and> round_trip 130 (replicate 101 97) (replicate 1152 120) = Some (replicate 1150 120)
   \<and> round_trip 130 (replicate 101 97) (replicate 1152 120) \<noteq> Some (replicate 1152 120)"
proof -
  have c: "c_str (replicate 101 97) = replicate 101 97"
    by (simp add: c_str_def)
  have "round_trip 130 (replicate 101 97) (replicate 1152 120)
      = Some (take (min (length (replicate 1152 (120 :: byte)))
                (10 * (126 - (9 + length (c_str (replicate 101 97))) div 10)))
              (replicate 1152 120))"
    by (rule round_trip_result) (simp_all add: c slash_def)
  then have "round_trip 130 (replicate 101 97) (replicate 1152 120) = Some (replicate 1150 120)"
    by (simp add: c)
  then show ?thesis by simp
qed

section \<open>A write that runs out of space (claim C1)\<close>

text \<open>
  On a fresh backing file: \<open>fd = open("a", O_CREAT)\<close>, then \<open>write(fd, buf, 1251)\<close>. The scenario
  gives the count the engine returns for the write (\<open>storage_write_in_region\<close> on the
  state \<open>write_virtual\<close> calls it in), the value \<open>write_virtual\<close> returns, and the descriptor
  afterwards.
\<close>

definition out_of_space_scenario :: "(size_t \<times> size_t \<times> virtual_file option) option" where
  "out_of_space_scenario =
     do {
       (fd, f1) \<leftarrow> open_virtual 130 [97] O_CREAT (initial_fs None);
       f1' \<leftarrow> jump_to_file_if_needed 130 fd f1;
       (accepted, _) \<leftarrow> storage_write_in_region 130 (replicate 1251 120) 1251 (engine f1');
       (returned, f2) \<leftarrow> write_virtual 130 fd (replicate 1251 120) 1251 f1;
       Some (accepted, returned, descriptors f2 (nat fd))
     }"

text \<open>
  C1 fails in the code. The file can take 1250 bytes (block 1 and the 124 blocks that are
  free once it exists); the engine accepts 1250 of the 1251 bytes and returns that count, but
  \<open>write_virtual\<close> discards it: it returns 1251, moves the cursor by 1251 and stores the
  length 1252.
\<close>

theorem write_virtual_out_of_space:
  "out_of_space_scenario
     = Some (1250, 1251,
         Some \<lparr>content_region = 1, metadata_region = 2, file_length = 1252, reader_position = 1251\<rparr>)"
proof -
  let ?B = "replicate 1251 (120 :: byte)"
  let ?d = "(\<lambda>_. None)(0 \<mapsto> \<lparr>content_region = 1, metadata_region = 2,
                                 file_length = 0, reader_position = 0 :: size_t\<rparr>)"
  have c: "c_str [97] = [97]" by (simp add: c_str_def)
  obtain blks c p rp where
    op: "open_virtual 130 [97] O_CREAT (initial_fs None)
       = Some (0, \<lparr>descriptors = ?d, last_used_descriptor = - 1,
                   engine = at_block 10 128 blks c p rp\<rparr>)"
    and ok: "blocks_ok 10 128 blks"
    and u1: "b_use (blks ! 1) = 1" and n1: "b_next (blks ! 1) = INVALID_BLOCK"
    and u2: "b_use (blks ! 2) = 1"
    and cnt: "count_free blks = 125 - (9 + length (c_str [97])) div 10"
    using open_fresh [of "[97]" 130] by (auto simp: c slash_def)
  have cnt': "count_free blks = 124" using cnt by (simp add: c)
  let ?f1 = "\<lparr>descriptors = ?d, last_used_descriptor = - 1, engine = at_block 10 128 blks c p rp\<rparr>"
  have jump: "jump_to_file_if_needed 130 0 ?f1
      = Some \<lparr>descriptors = ?d, last_used_descriptor = 0,
               engine = at_block 10 128 blks (unat (1 :: storage_region)) 0 0\<rparr>"
    using ok by (rule jump_to_fresh_file) simp_all
  obtain blks' js fin k cx px rx where
    post: "write_blocks_post (unat (10 :: 16 word)) blks 1 0 ?B blks' js fin k"
    and wr: "storage_write_in_region 130 ?B (word_of_nat (length ?B)) (at_block 10 128 blks 1 0 0)
       = Some (word_of_nat k, at_block 10 128 blks' cx px rx)"
    using ok _ u1 n1 by (rule engine_write_fresh [where fuel = 130 and B = ?B and rp = 0]) simp_all
  have "k = min (length ?B) (unat (10 :: 16 word) * Suc (count_free blks))"
    using post by (rule write_blocks_post_count)
  then have k: "k = 1250" by (simp add: cnt')
  have wr': "storage_write_in_region 130 ?B 1251 (at_block 10 128 blks (Suc 0) 0 0)
       = Some (1250, at_block 10 128 blks' cx px rx)"
    using wr by (simp add: k)
  obtain blks'' js' where
    "write_virtual 130 0 ?B (word_of_nat (length ?B)) ?f1
       = Some (word_of_nat (length ?B),
           \<lparr>descriptors = ?d(nat 0 \<mapsto> \<lparr>content_region = 1, metadata_region = 2,
                file_length = word_of_nat (length ?B) + 1, reader_position = word_of_nat (length ?B)\<rparr>),
            last_used_descriptor = - 1,
            engine = at_block 10 128 blks'' (unat (2 :: storage_region)) 8 8\<rparr>)"
  proof (rule write_virtual_fresh [where content = 1 and meta = 2 and fd = 0 and d = ?d
        and B = ?B and fuel = 130 and bsz = 10 and bc = 128 and blks = blks and c = c and p = p
        and rp = rp])
    show "blocks_ok 10 128 blks" by (rule ok)
    show "(1 :: storage_region) < 128" "(2 :: storage_region) < 128" "(1 :: storage_region) \<noteq> 2"
      by simp_all
    show "b_use (blks ! unat (1 :: storage_region)) = 1" using u1 by simp
    show "b_next (blks ! unat (1 :: storage_region)) = INVALID_BLOCK" using n1 by simp
    show "b_use (blks ! unat (2 :: storage_region)) = 1" using u2 by simp
    show "8 < unat (10 :: 16 word)" by simp
    show "(0 :: int) \<le> 0" "(0 :: int) < 256" by simp_all
    show "?d (nat 0) = Some \<lparr>content_region = 1, metadata_region = 2,
                              file_length = 0, reader_position = 0\<rparr>"
      by simp
    show "length ?B < 2 ^ 62" by simp
    show "length ?B div unat (10 :: 16 word) < 130" by simp
  qed
  then have wv: "write_virtual 130 0 ?B 1251 ?f1
       = Some (1251,
           \<lparr>descriptors = ?d(0 \<mapsto> \<lparr>content_region = 1, metadata_region = 2,
                file_length = 1252, reader_position = 1251\<rparr>),
            last_used_descriptor = - 1,
            engine = at_block 10 128 blks'' 2 8 8\<rparr>)"
    by simp
  show ?thesis
    unfolding out_of_space_scenario_def
    using jump by (simp add: op wr' wv)
qed

end
